theory Spec2Isabelle
  imports Complex_Main
begin

section \<open>Floating-point values\<close>

text \<open>
  The C++ code computes on \<^verbatim>\<open>float\<close> and \<^verbatim>\<open>double\<close>.  Both are modelled by one
  type: a finite value carries an exact real number, and the three special values of
  IEEE arithmetic that steer the control flow of the program (\<^verbatim>\<open>INFINITY\<close>,
  \<^verbatim>\<open>-INFINITY\<close>, NaN) are separate constructors.  The operations of this section
  return the exact result: rounding, overflow to infinity and underflow to zero are not
  part of them, and in the functions built on them alone the conversions between
  \<^verbatim>\<open>float\<close> and \<^verbatim>\<open>double\<close> (such as \<^verbatim>\<open>Float(beta)\<close>) are the identity.  The rounding
  of the IEEE formats is defined in the section on rounded arithmetic, and the two
  functions whose results depend on it, \<open>perplexity_and_prob\<close> and
  \<open>vectors_to_distances\<close>, are given there a second time with every operation rounded.
  There is one zero; every division in the program is by a sum of non-negative terms
  or by the constant 2, so a zero divisor is never negative zero.
\<close>

datatype flt = Fin real | PInf | NInf | NaN

fun isfinite :: "flt \<Rightarrow> bool" where
  "isfinite (Fin x) = True"
| "isfinite PInf = False"
| "isfinite NInf = False"
| "isfinite NaN = False"

fun fneg :: "flt \<Rightarrow> flt" where
  "fneg (Fin x) = Fin (- x)"
| "fneg PInf = NInf"
| "fneg NInf = PInf"
| "fneg NaN = NaN"

fun fadd :: "flt \<Rightarrow> flt \<Rightarrow> flt" where
  "fadd (Fin x) (Fin y) = Fin (x + y)"
| "fadd (Fin x) PInf = PInf"
| "fadd (Fin x) NInf = NInf"
| "fadd PInf (Fin y) = PInf"
| "fadd PInf PInf = PInf"
| "fadd PInf NInf = NaN"
| "fadd NInf (Fin y) = NInf"
| "fadd NInf PInf = NaN"
| "fadd NInf NInf = NInf"
| "fadd NaN y = NaN"
| "fadd x NaN = NaN"

definition fsub :: "flt \<Rightarrow> flt \<Rightarrow> flt" where
  "fsub x y = fadd x (fneg y)"

text \<open>The infinity with the sign of a non-zero real.\<close>

definition inf_of_sign :: "real \<Rightarrow> flt" where
  "inf_of_sign s = (if 0 < s then PInf else NInf)"

fun fmul :: "flt \<Rightarrow> flt \<Rightarrow> flt" where
  "fmul (Fin x) (Fin y) = Fin (x * y)"
| "fmul (Fin x) PInf = (if x = 0 then NaN else inf_of_sign x)"
| "fmul (Fin x) NInf = (if x = 0 then NaN else inf_of_sign (- x))"
| "fmul PInf (Fin y) = (if y = 0 then NaN else inf_of_sign y)"
| "fmul NInf (Fin y) = (if y = 0 then NaN else inf_of_sign (- y))"
| "fmul PInf PInf = PInf"
| "fmul PInf NInf = NInf"
| "fmul NInf PInf = NInf"
| "fmul NInf NInf = PInf"
| "fmul NaN y = NaN"
| "fmul x NaN = NaN"

fun fdiv :: "flt \<Rightarrow> flt \<Rightarrow> flt" where
  "fdiv (Fin x) (Fin y) =
     (if y = 0 then (if x = 0 then NaN else inf_of_sign x) else Fin (x / y))"
| "fdiv (Fin x) PInf = Fin 0"
| "fdiv (Fin x) NInf = Fin 0"
| "fdiv PInf (Fin y) = (if 0 \<le> y then PInf else NInf)"
| "fdiv NInf (Fin y) = (if 0 \<le> y then NInf else PInf)"
| "fdiv PInf PInf = NaN"
| "fdiv PInf NInf = NaN"
| "fdiv NInf PInf = NaN"
| "fdiv NInf NInf = NaN"
| "fdiv NaN y = NaN"
| "fdiv x NaN = NaN"

fun fexp :: "flt \<Rightarrow> flt" where
  "fexp (Fin x) = Fin (exp x)"
| "fexp PInf = PInf"
| "fexp NInf = Fin 0"
| "fexp NaN = NaN"

fun flog :: "flt \<Rightarrow> flt" where
  "flog (Fin x) = (if 0 < x then Fin (ln x) else if x = 0 then NInf else NaN)"
| "flog PInf = PInf"
| "flog NInf = NaN"
| "flog NaN = NaN"

fun fabs :: "flt \<Rightarrow> flt" where
  "fabs (Fin x) = Fin \<bar>x\<bar>"
| "fabs PInf = PInf"
| "fabs NInf = PInf"
| "fabs NaN = NaN"

text \<open>The comparison \<^verbatim>\<open>x > y\<close>: false as soon as one side is NaN.\<close>

fun fgt :: "flt \<Rightarrow> flt \<Rightarrow> bool" where
  "fgt (Fin x) (Fin y) = (y < x)"
| "fgt (Fin x) NInf = True"
| "fgt PInf (Fin y) = True"
| "fgt PInf NInf = True"
| "fgt x y = False"

text \<open>The comparison \<^verbatim>\<open>x != y\<close>: true as soon as one side is NaN.\<close>

fun fne :: "flt \<Rightarrow> flt \<Rightarrow> bool" where
  "fne NaN y = True"
| "fne x NaN = True"
| "fne x y = (x \<noteq> y)"

section \<open>Errors\<close>

text \<open>
  \<open>Exception msg\<close> is the C++ \<^verbatim>\<open>throw Exception(msg)\<close>.  \<open>OutOfRange k n\<close> marks an
  access at index \<open>k\<close> of a vector of \<open>n\<close> elements with \<open>k\<close> outside \<open>0..n-1\<close>:
  \<^verbatim>\<open>distribution<Float>\<close> is a \<^verbatim>\<open>std::vector\<close> with an unchecked \<^verbatim>\<open>operator[]\<close>, so the
  C++ behaviour is undefined there and the model stops with this value.
\<close>

datatype error = Exception string | OutOfRange int nat

text \<open>Checked element read and element write of a vector.\<close>

definition elem_at :: "'a list \<Rightarrow> int \<Rightarrow> 'a option" where
  "elem_at xs k = (if 0 \<le> k \<and> nat k < length xs then Some (xs ! nat k) else None)"

definition assign :: "'a list \<Rightarrow> int \<Rightarrow> 'a \<Rightarrow> error + 'a list" where
  "assign xs k v =
     (if 0 \<le> k \<and> nat k < length xs then Inr (xs[nat k := v])
      else Inl (OutOfRange k (length xs)))"

section \<open>Operations of \<^verbatim>\<open>distribution<Float>\<close>\<close>

text \<open>
  Modelled from the spec: the header \<^verbatim>\<open>stats/distribution.h\<close> and its companions
  (\<^verbatim>\<open>distribution_ops.h\<close>, \<^verbatim>\<open>distribution_simd.h\<close>) are not part of the source under
  study.  A distribution is a vector of floats; \<open>total\<close> is the sum of its entries,
  \<open>dotprod\<close> the sum of the entrywise products, and \<open>exp\<close>, multiplication by a scalar
  and division by a scalar act on every entry.
\<close>

definition total :: "flt list \<Rightarrow> flt" where
  "total P = foldl fadd (Fin 0) P"

definition dotprod :: "flt list \<Rightarrow> flt list \<Rightarrow> flt" where
  "dotprod D P = total (map (\<lambda>(x, y). fmul x y) (zip D P))"

definition dist_scale :: "flt list \<Rightarrow> flt \<Rightarrow> flt list" where
  "dist_scale D c = map (\<lambda>x. fmul x c) D"

definition dist_exp :: "flt list \<Rightarrow> flt list" where
  "dist_exp D = map fexp D"

definition dist_div :: "flt list \<Rightarrow> flt \<Rightarrow> flt list" where
  "dist_div P c = map (\<lambda>x. fdiv x c) P"

section \<open>\<^verbatim>\<open>perplexity_and_prob\<close>\<close>

text \<open>
  \<^verbatim>\<open>
  distribution<Float> P = exp(D * Float(beta));
  if (i != -1) P[i] = 0;
  double tot = P.total();
  double H = log(tot) + beta * D.dotprod(P) / tot;
  P /= tot;
  return make_pair(H, P);
  \<close>
  The default arguments are \<^verbatim>\<open>beta = 1.0\<close> and \<^verbatim>\<open>i = -1\<close>.
\<close>

definition perplexity_and_prob :: "flt list \<Rightarrow> flt \<Rightarrow> int \<Rightarrow> error + (flt \<times> flt list)" where
  "perplexity_and_prob D beta i =
     (let P0 = dist_exp (dist_scale D beta) in
      case (if i \<noteq> - 1 then assign P0 i (Fin 0) else Inr P0) of
        Inl e \<Rightarrow> Inl e
      | Inr P1 \<Rightarrow>
          let tot = total P1;
              H = fadd (flog tot) (fdiv (fmul beta (dotprod D P1)) tot);
              P2 = dist_div P1 tot
          in Inr (H, P2))"

text \<open>
  The row of the specification, written from its words: the weight of entry \<open>j\<close> is
  \<open>exp (- beta * D[j])\<close>, the weight of the designated entry is 0, and the row is the
  weights divided by their sum.  It is stated on finite values.
\<close>

definition spec_weights :: "real list \<Rightarrow> real \<Rightarrow> int \<Rightarrow> real list" where
  "spec_weights ds b i =
     map (\<lambda>j. if int j = i then 0 else exp (- b * ds ! j)) [0..<length ds]"

definition spec_prob_row :: "real list \<Rightarrow> real \<Rightarrow> int \<Rightarrow> flt list" where
  "spec_prob_row ds b i =
     map (\<lambda>w. Fin (w / sum_list (spec_weights ds b i))) (spec_weights ds b i)"

section \<open>\<^verbatim>\<open>binary_search_perplexity\<close>\<close>

text \<open>
  The local variables of the function that live across the loop, with the loop counter.
  \<^verbatim>\<open>
  double betamin = -INFINITY, betamax = INFINITY;
  double beta = 1.0;
  distribution<float> P;
  double log_perplexity;
  double log_required_perplexity = log(required_perplexity);
  boost::tie(log_perplexity, P) = perplexity_and_prob(Di, beta, i);
  \<close>
\<close>

record search =
  s_betamin :: flt
  s_betamax :: flt
  s_beta :: flt
  s_log_perplexity :: flt
  s_P :: "flt list"
  s_iter :: nat

definition search_init :: "flt \<Rightarrow> flt list \<Rightarrow> search" where
  "search_init H P =
     \<lparr>s_betamin = NInf, s_betamax = PInf, s_beta = Fin 1,
      s_log_perplexity = H, s_P = P, s_iter = 0\<rparr>"

text \<open>
  The loop condition
  \<^verbatim>\<open>iter < 50 && abs(log_perplexity - log_required_perplexity) > tolerance\<close>.
\<close>

definition searching :: "flt \<Rightarrow> flt \<Rightarrow> search \<Rightarrow> bool" where
  "searching logT tol s =
     (s_iter s < 50 \<and> fgt (fabs (fsub (s_log_perplexity s) logT)) tol)"

text \<open>
  The loop body.  In the second branch \<^verbatim>\<open>betamax = beta\<close> is assigned before
  \<^verbatim>\<open>beta = (beta + betamax) * 0.5\<close> is evaluated, so the sum is taken with the new
  \<^verbatim>\<open>betamax\<close>.  The call at the end of the body passes no index, so the default
  \<^verbatim>\<open>i = -1\<close> applies.
  \<^verbatim>\<open>
  if (log_perplexity > log_required_perplexity) {
      betamin = beta;
      if (!isfinite(betamax)) beta *= 2;
      else beta = (beta + betamax) * 0.5;
  }
  else {
      betamax = beta;
      if (!isfinite(betamin)) beta /= 2;
      else beta = (beta + betamax) * 0.5;
  }
  boost::tie(log_perplexity, P) = perplexity_and_prob(Di, beta);
  \<close>
\<close>

definition search_step :: "flt list \<Rightarrow> flt \<Rightarrow> search \<Rightarrow> error + search" where
  "search_step Di logT s =
     (let (bmin, bmax, b) =
        (if fgt (s_log_perplexity s) logT then
           (let bmin = s_beta s; bmax = s_betamax s in
            (bmin, bmax,
             if \<not> isfinite bmax then fmul (s_beta s) (Fin 2)
             else fmul (fadd (s_beta s) bmax) (Fin (1 / 2))))
         else
           (let bmin = s_betamin s; bmax = s_beta s in
            (bmin, bmax,
             if \<not> isfinite bmin then fdiv (s_beta s) (Fin 2)
             else fmul (fadd (s_beta s) bmax) (Fin (1 / 2)))))
      in case perplexity_and_prob Di b (- 1) of
           Inl e \<Rightarrow> Inl e
         | Inr (H, P) \<Rightarrow>
             Inr \<lparr>s_betamin = bmin, s_betamax = bmax, s_beta = b,
                  s_log_perplexity = H, s_P = P, s_iter = Suc (s_iter s)\<rparr>)"

function search_loop :: "flt list \<Rightarrow> flt \<Rightarrow> flt \<Rightarrow> search \<Rightarrow> error + search" where
  "search_loop Di logT tol s =
     (if searching logT tol s then
        (case search_step Di logT s of
           Inl e \<Rightarrow> Inl e
         | Inr s' \<Rightarrow> search_loop Di logT tol s')
      else Inr s)"
  by pat_completeness auto
termination
proof (relation "measure (\<lambda>(Di, logT, tol, s). 50 - s_iter s)")
  show "wf (measure (\<lambda>(Di, logT, tol, s). 50 - s_iter s))"
    by simp
next
  fix Di :: "flt list" and logT tol :: flt and s s' :: search
  assume run: "searching logT tol s" and step: "search_step Di logT s = Inr s'"
  from step have "s_iter s' = Suc (s_iter s)"
    by (auto simp: search_step_def Let_def split: if_splits sum.splits prod.splits)
  with run show "((Di, logT, tol, s'), (Di, logT, tol, s))
      \<in> measure (\<lambda>(Di, logT, tol, s). 50 - s_iter s)"
    by (auto simp: searching_def)
qed

declare search_loop.simps [simp del]

text \<open>The state after \<open>k\<close> executions of the loop body, whatever the tolerance.\<close>

fun search_steps :: "nat \<Rightarrow> flt list \<Rightarrow> flt \<Rightarrow> search \<Rightarrow> error + search" where
  "search_steps 0 Di logT s = Inr s"
| "search_steps (Suc k) Di logT s =
     (case search_step Di logT s of
        Inl e \<Rightarrow> Inl e
      | Inr s' \<Rightarrow> search_steps k Di logT s')"

text \<open>
  The bracket kept by the search: \<open>beta\<close> is finite and positive, \<open>betamin\<close> is
  \<open>-INFINITY\<close> or at most \<open>beta\<close>, and \<open>betamax\<close> is \<open>INFINITY\<close> or at least
  \<open>beta\<close>.
\<close>

definition bracket :: "search \<Rightarrow> bool" where
  "bracket s =
     (case s_beta s of
        Fin b \<Rightarrow>
          0 < b
          \<and> (case s_betamin s of NInf \<Rightarrow> True | Fin lo \<Rightarrow> lo \<le> b | PInf \<Rightarrow> False | NaN \<Rightarrow> False)
          \<and> (case s_betamax s of PInf \<Rightarrow> True | Fin hi \<Rightarrow> b \<le> hi | NInf \<Rightarrow> False | NaN \<Rightarrow> False)
      | PInf \<Rightarrow> False | NInf \<Rightarrow> False | NaN \<Rightarrow> False)"

text \<open>
  The function up to its \<^verbatim>\<open>return\<close>, giving all the locals, and the function itself,
  which returns \<^verbatim>\<open>make_pair(P, beta)\<close>.
\<close>

definition binary_search_perplexity_locals ::
    "flt list \<Rightarrow> flt \<Rightarrow> int \<Rightarrow> flt \<Rightarrow> error + search" where
  "binary_search_perplexity_locals Di required_perplexity i tolerance =
     (let log_required_perplexity = flog required_perplexity in
      case perplexity_and_prob Di (Fin 1) i of
        Inl e \<Rightarrow> Inl e
      | Inr (H, P) \<Rightarrow> search_loop Di log_required_perplexity tolerance (search_init H P))"

definition binary_search_perplexity ::
    "flt list \<Rightarrow> flt \<Rightarrow> int \<Rightarrow> flt \<Rightarrow> error + (flt list \<times> flt)" where
  "binary_search_perplexity Di required_perplexity i tolerance =
     (case binary_search_perplexity_locals Di required_perplexity i tolerance of
        Inl e \<Rightarrow> Inl e
      | Inr s \<Rightarrow> Inr (s_P s, s_beta s))"

section \<open>Matrices\<close>

text \<open>
  A \<^verbatim>\<open>boost::multi_array<float, 2>\<close> is its two extents and its rows.  A freshly
  constructed array holds zeros.  The code stores an extent in an \<^verbatim>\<open>int\<close> and counts
  rows with an \<^verbatim>\<open>unsigned\<close>; the model uses natural numbers throughout, and
  \<open>wf_array\<close> records that the extents fit an \<^verbatim>\<open>int\<close>, so that these conversions
  keep the value.
\<close>

record multi_array =
  shape0 :: nat
  shape1 :: nat
  elems :: "flt list list"

definition wf_array :: "multi_array \<Rightarrow> bool" where
  "wf_array A =
     (length (elems A) = shape0 A \<and> (\<forall>r \<in> set (elems A). length r = shape1 A)
      \<and> shape0 A < 2 ^ 31 \<and> shape1 A < 2 ^ 31)"

definition new_array :: "nat \<Rightarrow> nat \<Rightarrow> multi_array" where
  "new_array n m = \<lparr>shape0 = n, shape1 = m, elems = replicate n (replicate m (Fin 0))\<rparr>"

definition get_elem :: "multi_array \<Rightarrow> nat \<Rightarrow> nat \<Rightarrow> flt" where
  "get_elem A i j = elems A ! i ! j"

definition set_elem :: "multi_array \<Rightarrow> nat \<Rightarrow> nat \<Rightarrow> flt \<Rightarrow> multi_array" where
  "set_elem A i j v = A\<lparr>elems := (elems A)[i := (elems A ! i)[j := v]]\<rparr>"

text \<open>
  Modelled from the spec: \<^verbatim>\<open>SIMD::vec_dotprod_dp\<close> (\<^verbatim>\<open>arch/simd_vector.h\<close>) and
  \<^verbatim>\<open>multiply_transposed\<close> (\<^verbatim>\<open>algebra/matrix_ops.h\<close>) are not part of the source under
  study; they have the standard dense semantics: the dot product of the first \<open>d\<close>
  entries of two vectors, and the product of a matrix with the transpose of another.
\<close>

definition vec_dotprod_dp :: "flt list \<Rightarrow> flt list \<Rightarrow> nat \<Rightarrow> flt" where
  "vec_dotprod_dp x y d = dotprod (take d x) (take d y)"

definition multiply_transposed :: "multi_array \<Rightarrow> multi_array \<Rightarrow> multi_array" where
  "multiply_transposed A B =
     \<lparr>shape0 = shape0 A, shape1 = shape0 B,
      elems = map (\<lambda>a. map (\<lambda>b. dotprod a b) (elems B)) (elems A)\<rparr>"

section \<open>\<^verbatim>\<open>vectors_to_distances\<close>\<close>

text \<open>
  \<^verbatim>\<open>
  int n = X.shape()[0];
  int d = X.shape()[1];
  distribution<float> sum_X(n);
  for (unsigned i = 0;  i < n;  ++i)
      sum_X[i] = SIMD::vec_dotprod_dp(&X[i][0], &X[i][0], d);
  boost::multi_array<float, 2> XXT = multiply_transposed(X, X);
  boost::multi_array<float, 2> D(boost::extents[n][n]);
  for (unsigned i = 0;  i < n;  ++i)
      for (unsigned j = i;  j < n;  ++j)
          D[i][j] = D[j][i] = sum_X[i] + sum_X[j] - 2 * XXT[i][j];
  return D;
  \<close>
  Every index the loops use lies inside the extents.  With \<open>d = 0\<close> the address
  \<^verbatim>\<open>&X[i][0]\<close> is formed but nothing is read through it.
\<close>

definition dist_entry :: "flt list \<Rightarrow> multi_array \<Rightarrow> nat \<Rightarrow> nat \<Rightarrow> flt" where
  "dist_entry sum_X XXT i j =
     fsub (fadd (sum_X ! i) (sum_X ! j)) (fmul (Fin 2) (get_elem XXT i j))"

definition fill_row :: "flt list \<Rightarrow> multi_array \<Rightarrow> nat \<Rightarrow> multi_array \<Rightarrow> nat \<Rightarrow> multi_array" where
  "fill_row sum_X XXT n D i =
     foldl (\<lambda>D j. let v = dist_entry sum_X XXT i j in set_elem (set_elem D j i v) i j v)
       D [i..<n]"

definition vectors_to_distances :: "multi_array \<Rightarrow> multi_array" where
  "vectors_to_distances X =
     (let n = shape0 X;
          d = shape1 X;
          sum_X = foldl (\<lambda>s i. s[i := vec_dotprod_dp (elems X ! i) (elems X ! i) d])
                    (replicate n (Fin 0)) [0..<n];
          XXT = multiply_transposed X X
      in foldl (fill_row sum_X XXT n) (new_array n n) [0..<n])"

text \<open>
  The squared Euclidean distance of the specification, and the dot product, on real
  vectors; and the shape of an \<open>n\<close> by \<open>n\<close> array, for the invariants of the loops.
\<close>

definition dot :: "real list \<Rightarrow> real list \<Rightarrow> real" where
  "dot x y = sum_list (map (\<lambda>(a, b). a * b) (zip x y))"

definition sq_dist :: "real list \<Rightarrow> real list \<Rightarrow> real" where
  "sq_dist x y = sum_list (map (\<lambda>(a, b). (a - b)\<^sup>2) (zip x y))"

definition square_of :: "nat \<Rightarrow> multi_array \<Rightarrow> bool" where
  "square_of n A = (shape0 A = n \<and> shape1 A = n \<and> length (elems A) = n
                     \<and> (\<forall>r \<in> set (elems A). length r = n))"

section \<open>\<^verbatim>\<open>distances_to_probabilities\<close>\<close>

text \<open>
  The validation of one calibrated row:
  \<^verbatim>\<open>
  if (P_row.size() != n)
      throw Exception("P_row has the wrong size");
  if (P_row[n] != 0.0)
      throw Exception("P_row diagonal entry was not zero");
  \<close>
\<close>

definition check_row :: "nat \<Rightarrow> flt list \<Rightarrow> error + unit" where
  "check_row n P_row =
     (if length P_row \<noteq> n then Inl (Exception ''P_row has the wrong size'')
      else case elem_at P_row (int n) of
             None \<Rightarrow> Inl (OutOfRange (int n) (length P_row))
           | Some v \<Rightarrow>
               if fne v (Fin 0) then Inl (Exception ''P_row diagonal entry was not zero'')
               else Inr ())"

text \<open>
  One pass of the loop body up to the validation: the row is cut out of \<open>D\<close>,
  calibrated and validated.
  \<^verbatim>\<open>
  distribution<float> D_row(&D[i][0], &D[i][0] + n);
  distribution<float> P_row;
  boost::tie(P_row, beta[i]) = binary_search_perplexity(D_row, perplexity, i, tolerance);
  \<close>
\<close>

definition calibrate_row ::
    "multi_array \<Rightarrow> nat \<Rightarrow> flt \<Rightarrow> flt \<Rightarrow> nat \<Rightarrow> error + (flt list \<times> flt)" where
  "calibrate_row D n tolerance perplexity i =
     (let D_row = take n (elems D ! i) in
      case binary_search_perplexity D_row perplexity (int i) tolerance of
        Inl e \<Rightarrow> Inl e
      | Inr (P_row, b) \<Rightarrow>
          (case check_row n P_row of
             Inl e \<Rightarrow> Inl e
           | Inr u \<Rightarrow> Inr (P_row, b)))"

text \<open>
  The loop over the rows, on the pair of \<open>P\<close> and the vector \<open>beta\<close>; a validated
  row is copied into row \<open>i\<close> of \<open>P\<close> (\<^verbatim>\<open>std::copy(P_row.begin(), P_row.end(), &P[i][0])\<close>).
  The messages written to \<^verbatim>\<open>cerr\<close> are left out.
\<close>

fun rows_loop ::
    "multi_array \<Rightarrow> nat \<Rightarrow> flt \<Rightarrow> flt \<Rightarrow> nat list \<Rightarrow> multi_array \<times> flt list
       \<Rightarrow> error + (multi_array \<times> flt list)" where
  "rows_loop D n tolerance perplexity [] st = Inr st"
| "rows_loop D n tolerance perplexity (i # rest) (P, beta) =
     (case calibrate_row D n tolerance perplexity i of
        Inl e \<Rightarrow> Inl e
      | Inr (P_row, b) \<Rightarrow>
          rows_loop D n tolerance perplexity rest
            (P\<lparr>elems := (elems P)[i := P_row]\<rparr>, beta[i := b]))"

definition distances_to_probabilities ::
    "multi_array \<Rightarrow> flt \<Rightarrow> flt \<Rightarrow> error + multi_array" where
  "distances_to_probabilities D tolerance perplexity =
     (let n = shape0 D in
      if shape1 D \<noteq> n then Inl (Exception ''D is not square'')
      else case rows_loop D n tolerance perplexity [0..<n]
                  (new_array n n, replicate n (Fin 1)) of
             Inl e \<Rightarrow> Inl e
           | Inr (P, beta) \<Rightarrow> Inr P)"

section \<open>\<^verbatim>\<open>tsne\<close>\<close>

text \<open>
  \<^verbatim>\<open>
  int n = probs.shape()[0];
  if (n != probs.shape()[1])
      throw Exception("probabilities were the wrong shape");
  int d = num_dims;
  boost::multi_array<float, 2> Y(boost::extents[n][d]);
  return Y;
  \<close>
  The number of dimensions is an extent and so a natural number.
\<close>

definition tsne :: "multi_array \<Rightarrow> nat \<Rightarrow> error + multi_array" where
  "tsne probs num_dims =
     (let n = shape0 probs in
      if n \<noteq> shape1 probs then Inl (Exception ''probabilities were the wrong shape'')
      else let d = num_dims in Inr (new_array n d))"

section \<open>Rounded arithmetic\<close>

text \<open>
  An IEEE operation delivers the exact result rounded into the format of the target.  A
  rounding is a function from the reals into \<open>flt\<close>, which may return an infinity
  (overflow) or zero (underflow); \<open>rounded rnd\<close> applies it to a finite exact result and
  leaves infinities and NaN as they are.  \<open>ieee_round p emin emax\<close> is rounding to
  nearest, ties to even, into the binary format with \<open>p\<close> significant bits and
  exponents from \<open>emin\<close> to \<open>emax\<close>, subnormal numbers included; \<open>binary32\<close> is
  \<^verbatim>\<open>float\<close> and \<open>binary64\<close> is \<^verbatim>\<open>double\<close>.
\<close>

definition rounded :: "(real \<Rightarrow> flt) \<Rightarrow> flt \<Rightarrow> flt" where
  "rounded rnd v = (case v of Fin x \<Rightarrow> rnd x | PInf \<Rightarrow> PInf | NInf \<Rightarrow> NInf | NaN \<Rightarrow> NaN)"

definition round_even :: "real \<Rightarrow> int" where
  "round_even q =
     (let f = \<lfloor>q\<rfloor> in
      if q - of_int f < 1 / 2 then f
      else if 1 / 2 < q - of_int f then f + 1
      else if even f then f else f + 1)"

definition ieee_round :: "nat \<Rightarrow> int \<Rightarrow> int \<Rightarrow> real \<Rightarrow> flt" where
  "ieee_round p emin emax x =
     (if x = 0 then Fin 0
      else let e = max \<lfloor>log 2 \<bar>x\<bar>\<rfloor> emin;
               u = 2 powr (of_int e - (of_nat p - 1));
               y = of_int (round_even (x / u)) * u
           in if (2 - 2 powr (1 - of_nat p)) * 2 powr of_int emax < \<bar>y\<bar>
              then (if 0 < x then PInf else NInf)
              else Fin y)"

definition binary32 :: "real \<Rightarrow> flt" where
  "binary32 = ieee_round 24 (- 126) 127"

definition binary64 :: "real \<Rightarrow> flt" where
  "binary64 = ieee_round 53 (- 1022) 1023"

section \<open>\<^verbatim>\<open>perplexity_and_prob\<close> with the rounding of every operation\<close>


definition dotprod_fl :: "(real \<Rightarrow> flt) \<Rightarrow> flt list \<Rightarrow> flt list \<Rightarrow> flt" where
  "dotprod_fl rd D P =
     foldl (\<lambda>a (x, y). rounded rd (fadd a (rounded rd (fmul x y)))) (Fin 0) (zip D P)"



section \<open>\<^verbatim>\<open>vectors_to_distances\<close> with the rounding of every operation\<close>

text \<open>
  The function \<open>vectors_to_distances\<close> once more.  \<open>rf\<close> rounds what is stored in a
  \<^verbatim>\<open>float\<close>: the entries of \<open>sum_X\<close>, and in line 68 the sum, the product with 2 and
  the difference.  The two library functions it calls are parameters: \<open>dp\<close> is
  \<^verbatim>\<open>SIMD::vec_dotprod_dp\<close> and \<open>mt\<close> is \<^verbatim>\<open>multiply_transposed\<close>.  With \<open>rf\<close> exact and
  the exact \<open>vec_dotprod_dp\<close> and \<open>multiply_transposed\<close> it is \<open>vectors_to_distances\<close>
  itself.
\<close>

definition dist_entry_fl :: "(real \<Rightarrow> flt) \<Rightarrow> flt list \<Rightarrow> multi_array \<Rightarrow> nat \<Rightarrow> nat \<Rightarrow> flt" where
  "dist_entry_fl rf sum_X XXT i j =
     rounded rf (fsub (rounded rf (fadd (sum_X ! i) (sum_X ! j)))
                      (rounded rf (fmul (Fin 2) (get_elem XXT i j))))"

definition fill_row_fl ::
    "(real \<Rightarrow> flt) \<Rightarrow> flt list \<Rightarrow> multi_array \<Rightarrow> nat \<Rightarrow> multi_array \<Rightarrow> nat \<Rightarrow> multi_array" where
  "fill_row_fl rf sum_X XXT n D i =
     foldl (\<lambda>D j. let v = dist_entry_fl rf sum_X XXT i j in set_elem (set_elem D j i v) i j v)
       D [i..<n]"

definition sum_X_fl ::
    "(real \<Rightarrow> flt) \<Rightarrow> (flt list \<Rightarrow> flt list \<Rightarrow> nat \<Rightarrow> flt) \<Rightarrow> multi_array \<Rightarrow> flt list" where
  "sum_X_fl rf dp X =
     foldl (\<lambda>s i. s[i := rounded rf (dp (elems X ! i) (elems X ! i) (shape1 X))])
       (replicate (shape0 X) (Fin 0)) [0..<shape0 X]"

definition vectors_to_distances_fl ::
    "(real \<Rightarrow> flt) \<Rightarrow> (flt list \<Rightarrow> flt list \<Rightarrow> nat \<Rightarrow> flt)
       \<Rightarrow> (multi_array \<Rightarrow> multi_array \<Rightarrow> multi_array) \<Rightarrow> multi_array \<Rightarrow> multi_array" where
  "vectors_to_distances_fl rf dp mt X =
     (let n = shape0 X;
          sum_X = sum_X_fl rf dp X;
          XXT = mt X X
      in foldl (fill_row_fl rf sum_X XXT n) (new_array n n) [0..<n])"

text \<open>
  Modelled from the spec: the two library functions in IEEE arithmetic, with the dot
  products accumulated in \<^verbatim>\<open>double\<close> and the entries of the product matrix stored in
  \<^verbatim>\<open>float\<close>.
\<close>

definition vec_dotprod_dp_fl :: "(real \<Rightarrow> flt) \<Rightarrow> flt list \<Rightarrow> flt list \<Rightarrow> nat \<Rightarrow> flt" where
  "vec_dotprod_dp_fl rd x y d = dotprod_fl rd (take d x) (take d y)"

definition multiply_transposed_fl ::
    "(real \<Rightarrow> flt) \<Rightarrow> (real \<Rightarrow> flt) \<Rightarrow> multi_array \<Rightarrow> multi_array \<Rightarrow> multi_array" where
  "multiply_transposed_fl rf rd A B =
     \<lparr>shape0 = shape0 A, shape1 = shape0 B,
      elems = map (\<lambda>a. map (\<lambda>b. rounded rf (dotprod_fl rd a b)) (elems B)) (elems A)\<rparr>"

section \<open>Facts about finite vectors\<close>

lemma foldl_fadd_Fin: "foldl fadd (Fin a) (map Fin xs) = Fin (a + sum_list xs)"
  by (induction xs arbitrary: a) (simp_all add: add.assoc)

lemma total_Fin: "total (map Fin xs) = Fin (sum_list xs)"
  using foldl_fadd_Fin [of 0 xs] by (simp add: total_def)

lemma dotprod_Fin:
  "dotprod (map Fin xs) (map Fin ys) = Fin (sum_list (map (\<lambda>(x, y). x * y) (zip xs ys)))"
proof -
  have "map (\<lambda>(x, y). fmul x y) (zip (map Fin xs) (map Fin ys))
        = map Fin (map (\<lambda>(x, y). x * y) (zip xs ys))"
    by (simp add: zip_map1 zip_map2 case_prod_beta)
  then show ?thesis
    by (simp only: dotprod_def total_Fin)
qed








lemma pp_no_index:
  "perplexity_and_prob D b (- 1) =
     Inr (fadd (flog (total (dist_exp (dist_scale D b))))
            (fdiv (fmul b (dotprod D (dist_exp (dist_scale D b)))) (total (dist_exp (dist_scale D b)))),
          dist_div (dist_exp (dist_scale D b)) (total (dist_exp (dist_scale D b))))"
  by (simp add: perplexity_and_prob_def Let_def)


lemma search_step_total:
  "\<exists>s'. search_step Di logT s = Inr s' \<and> s_iter s' = Suc (s_iter s)"
  by (simp add: search_step_def pp_no_index Let_def split: prod.splits)

lemma search_loop_stop:
  "\<not> searching logT tol s \<Longrightarrow> search_loop Di logT tol s = Inr s"
  by (subst search_loop.simps) simp

lemma search_loop_continue:
  "searching logT tol s \<Longrightarrow> search_step Di logT s = Inr s'
     \<Longrightarrow> search_loop Di logT tol s = search_loop Di logT tol s'"
  by (subst search_loop.simps) simp

lemma search_loop_trace:
  "\<exists>s'. search_loop Di logT tol s = Inr s'
        \<and> s_iter s \<le> s_iter s'
        \<and> (s_iter s \<le> 50 \<longrightarrow> s_iter s' \<le> 50)
        \<and> \<not> searching logT tol s'
        \<and> search_steps (s_iter s' - s_iter s) Di logT s = Inr s'
        \<and> (\<forall>k < s_iter s' - s_iter s.
              \<exists>sk. search_steps k Di logT s = Inr sk \<and> searching logT tol sk)"
proof (induction Di logT tol s rule: search_loop.induct)
  case (1 Di logT tol s)
  show ?case
  proof (cases "searching logT tol s")
    case False
    then show ?thesis by (simp add: search_loop_stop)
  next
    case True
    obtain s1 where s1: "search_step Di logT s = Inr s1" "s_iter s1 = Suc (s_iter s)"
      using search_step_total by blast
    from "1.IH" [OF True s1(1)] obtain s' where s':
      "search_loop Di logT tol s1 = Inr s'"
      "s_iter s1 \<le> s_iter s'"
      "s_iter s1 \<le> 50 \<longrightarrow> s_iter s' \<le> 50"
      "\<not> searching logT tol s'"
      "search_steps (s_iter s' - s_iter s1) Di logT s1 = Inr s'"
      "\<forall>k < s_iter s' - s_iter s1.
          \<exists>sk. search_steps k Di logT s1 = Inr sk \<and> searching logT tol sk"
      by blast
    have loop: "search_loop Di logT tol s = Inr s'"
      using True s1(1) s'(1) by (simp add: search_loop_continue)
    have diff: "s_iter s' - s_iter s = Suc (s_iter s' - s_iter s1)"
      using s1(2) s'(2) by simp
    have steps: "search_steps (s_iter s' - s_iter s) Di logT s = Inr s'"
      using s1(1) s'(5) by (simp add: diff)
    have bound: "s_iter s \<le> 50 \<longrightarrow> s_iter s' \<le> 50"
      using True s1(2) s'(3) by (simp add: searching_def)
    have visited: "\<exists>sk. search_steps k Di logT s = Inr sk \<and> searching logT tol sk"
      if "k < s_iter s' - s_iter s" for k
    proof (cases k)
      case 0
      with True show ?thesis by simp
    next
      case (Suc k')
      with that diff have "k' < s_iter s' - s_iter s1" by simp
      with s'(6) obtain sk where "search_steps k' Di logT s1 = Inr sk" "searching logT tol sk"
        by blast
      with Suc s1(1) show ?thesis by simp
    qed
    show ?thesis
      using loop s1(2) s'(2) s'(4) steps bound visited by auto
  qed
qed

section \<open>The search on a row of three zero distances\<close>

text \<open>
  With every distance 0 all weights are \<open>exp 0 = 1\<close>, whatever the bandwidth, so each
  call of \<open>perplexity_and_prob\<close> is computed exactly: the first call, which clears the
  self entry, has \<open>H = ln 2\<close>, and every later call has \<open>H = ln 3\<close>.  Against the
  target perplexity 30 the search halves \<open>beta\<close> fifty times.
\<close>

lemma ln10_gt_1: "1 < ln (10::real)"
proof -
  have "exp (1::real) < 10" using exp_le by linarith
  then show ?thesis using ln_less_cancel_iff [of "exp 1" "10::real"] by simp
qed

lemma zero_row_first:
  "perplexity_and_prob [Fin 0, Fin 0, Fin 0] (Fin 1) 0
     = Inr (Fin (ln 2), [Fin 0, Fin (1 / 2), Fin (1 / 2)])"
  by (simp add: perplexity_and_prob_def assign_def dist_exp_def dist_scale_def dist_div_def
      total_def dotprod_def Let_def)

lemma zero_row_later:
  "perplexity_and_prob [Fin 0, Fin 0, Fin 0] (Fin x) (- 1)
     = Inr (Fin (ln 3), [Fin (1 / 3), Fin (1 / 3), Fin (1 / 3)])"
  by (simp add: pp_no_index dist_exp_def dist_scale_def dist_div_def total_def dotprod_def)

lemma zero_row_searching:
  assumes "s_log_perplexity s = Fin h" "h \<le> ln 3"
  shows "searching (Fin (ln 30)) (Fin (1 / 100000)) s \<longleftrightarrow> s_iter s < 50"
proof -
  have "ln (30::real) = ln 3 + ln 10"
    using ln_mult [of "3::real" 10] by simp
  with ln10_gt_1 assms(2) have "h - ln 30 < - 1" by linarith
  then have "1 / 100000 < \<bar>h - ln 30\<bar>" by linarith
  then show ?thesis
    using assms(1) by (simp add: searching_def fsub_def)
qed

lemma zero_row_step:
  assumes "s_betamin s = NInf" "s_beta s = Fin x" "s_log_perplexity s = Fin h" "h \<le> ln 3"
  shows "search_step [Fin 0, Fin 0, Fin 0] (Fin (ln 30)) s
     = Inr \<lparr>s_betamin = NInf, s_betamax = Fin x, s_beta = Fin (x / 2),
            s_log_perplexity = Fin (ln 3), s_P = [Fin (1 / 3), Fin (1 / 3), Fin (1 / 3)],
            s_iter = Suc (s_iter s)\<rparr>"
proof -
  have "ln (3::real) \<le> ln 30" by simp
  with assms(4) have "\<not> ln 30 < h" by linarith
  then show ?thesis
    using assms(1-3) by (simp add: search_step_def zero_row_later Let_def)
qed

lemma zero_row_loop:
  assumes "s_iter s = 50 - k" "k \<le> 50" "0 < k"
    "s_betamin s = NInf" "s_beta s = Fin x" "s_log_perplexity s = Fin h" "h \<le> ln 3"
  shows "\<exists>s'. search_loop [Fin 0, Fin 0, Fin 0] (Fin (ln 30)) (Fin (1 / 100000)) s = Inr s'
     \<and> s_beta s' = Fin (x / 2 ^ k) \<and> s_P s' = [Fin (1 / 3), Fin (1 / 3), Fin (1 / 3)]
     \<and> s_iter s' = 50"
  using assms
proof (induction k arbitrary: s x h)
  case 0
  then show ?case by simp
next
  case (Suc k)
  let ?s1 = "\<lparr>s_betamin = NInf, s_betamax = Fin x, s_beta = Fin (x / 2),
            s_log_perplexity = Fin (ln 3), s_P = [Fin (1 / 3), Fin (1 / 3), Fin (1 / 3)],
            s_iter = Suc (s_iter s)\<rparr>"
  have step: "search_step [Fin 0, Fin 0, Fin 0] (Fin (ln 30)) s = Inr ?s1"
    using Suc.prems by (intro zero_row_step)
  have run: "searching (Fin (ln 30)) (Fin (1 / 100000)) s"
    using Suc.prems zero_row_searching [of s h] by simp
  have unfold: "search_loop [Fin 0, Fin 0, Fin 0] (Fin (ln 30)) (Fin (1 / 100000)) s
      = search_loop [Fin 0, Fin 0, Fin 0] (Fin (ln 30)) (Fin (1 / 100000)) ?s1"
    using run step by (rule search_loop_continue)
  have it1: "s_iter ?s1 = 50 - k"
    using Suc.prems(1,2) by simp
  show ?case
  proof (cases "k = 0")
    case True
    then have "\<not> searching (Fin (ln 30)) (Fin (1 / 100000)) ?s1"
      using it1 by (simp add: searching_def)
    then have "search_loop [Fin 0, Fin 0, Fin 0] (Fin (ln 30)) (Fin (1 / 100000)) ?s1 = Inr ?s1"
      by (rule search_loop_stop)
    with unfold True it1 show ?thesis by simp
  next
    case False
    from Suc.IH [of ?s1 "x / 2" "ln 3"] it1 False Suc.prems(2)
    obtain s' where "search_loop [Fin 0, Fin 0, Fin 0] (Fin (ln 30)) (Fin (1 / 100000)) ?s1 = Inr s'"
      "s_beta s' = Fin (x / 2 / 2 ^ k)" "s_P s' = [Fin (1 / 3), Fin (1 / 3), Fin (1 / 3)]"
      "s_iter s' = 50"
      by auto
    with unfold show ?thesis by simp
  qed
qed

lemma zero_row_search:
  "binary_search_perplexity [Fin 0, Fin 0, Fin 0] (Fin 30) 0 (Fin (1 / 100000))
     = Inr ([Fin (1 / 3), Fin (1 / 3), Fin (1 / 3)], Fin (1 / 2 ^ 50))"
proof -
  let ?s0 = "search_init (Fin (ln 2)) [Fin 0, Fin (1 / 2), Fin (1 / 2)]"
  have "ln (2::real) \<le> ln 3" by simp
  then obtain s' where
    "search_loop [Fin 0, Fin 0, Fin 0] (Fin (ln 30)) (Fin (1 / 100000)) ?s0 = Inr s'"
    "s_beta s' = Fin (1 / 2 ^ 50)" "s_P s' = [Fin (1 / 3), Fin (1 / 3), Fin (1 / 3)]"
    using zero_row_loop [of ?s0 50 1 "ln 2"] by (auto simp: search_init_def)
  then show ?thesis
    by (simp add: binary_search_perplexity_def binary_search_perplexity_locals_def
        zero_row_first)
qed

section \<open>The search on the row \<open>(-1, 0)\<close>\<close>

text \<open>
  For the row \<open>(-1, 0)\<close> with self index 0 and target perplexity \<open>19/20\<close> the first
  call has \<open>H = 0\<close>, above \<open>ln (19/20)\<close>, and the call at bandwidth 2 has
  \<open>H = ln (1 + exp (-2)) - 2 exp (-2) / (1 + exp (-2))\<close>, below it.  The bounds on
  \<open>exp\<close> and \<open>ln\<close> that decide the two comparisons are proved first.
\<close>

lemma exp_m2_bounds: "1 / 9 \<le> exp (- 2 :: real)" "exp (- 2 :: real) \<le> 1 / 4"
proof -
  have e2: "exp (2::real) = exp 1 * exp 1"
    using exp_add [of "1::real" 1] by simp
  have lo: "2 \<le> exp (1::real)"
    using exp_ge_add_one_self [of "1::real"] by simp
  have hi: "exp (1::real) \<le> 3" by (rule exp_le)
  have "exp (1::real) * exp 1 \<le> 3 * 3"
    using hi lo by (intro mult_mono) simp_all
  then have u: "exp (2::real) \<le> 9" by (simp add: e2)
  have "2 * 2 \<le> exp (1::real) * exp 1"
    using lo by (intro mult_mono) simp_all
  then have l: "4 \<le> exp (2::real)" by (simp add: e2)
  have inv: "exp (- 2 :: real) = 1 / exp 2"
    by (simp add: exp_minus inverse_eq_divide)
  show "1 / 9 \<le> exp (- 2 :: real)"
    using u by (simp add: inv field_simps)
  show "exp (- 2 :: real) \<le> 1 / 4"
    using l by (simp add: inv field_simps)
qed

lemma ln_19_20_bounds: "- (1 / 19) \<le> ln (19 / 20 :: real)" "ln (19 / 20 :: real) \<le> - (1 / 20)"
proof -
  have "ln (20 / 19 :: real) \<le> 20 / 19 - 1"
    by (rule ln_le_minus_one) simp
  moreover have "ln (19 / 20 :: real) = - ln (20 / 19)"
    using ln_div [of "19::real" 20] ln_div [of "20::real" 19] by simp
  ultimately show "- (1 / 19) \<le> ln (19 / 20 :: real)" by simp
  have "ln (19 / 20 :: real) \<le> 19 / 20 - 1"
    by (rule ln_le_minus_one) simp
  then show "ln (19 / 20 :: real) \<le> - (1 / 20)" by simp
qed

lemma H2_upper: "ln (1 + exp (- 2)) + 2 * (- exp (- 2)) / (1 + exp (- 2)) \<le> - (1 / 15 :: real)"
proof -
  define x :: real where "x = exp (- 2)"
  have x: "1 / 9 \<le> x" "x \<le> 1 / 4"
    using exp_m2_bounds by (simp_all add: x_def)
  have "ln (1 + x) \<le> x"
    using x by (intro ln_add_one_self_le_self) simp
  then have "ln (1 + exp (- 2)) + 2 * (- exp (- 2)) / (1 + exp (- 2)) \<le> x - 2 * x / (1 + x)"
    by (simp add: x_def)
  also have "x - 2 * x / (1 + x) = - (x * (1 - x) / (1 + x))"
    using x by (simp add: field_simps)
  also have "\<dots> \<le> - (1 / 15)"
  proof -
    have "1 / 9 * (3 / 4) \<le> x * (1 - x)"
      using x by (intro mult_mono) simp_all
    moreover have "0 < 1 + x" "1 + x \<le> 5 / 4" using x by simp_all
    ultimately have "1 / 15 * (1 + x) \<le> x * (1 - x)" by simp
    then have "1 / 15 \<le> x * (1 - x) / (1 + x)"
      using \<open>0 < 1 + x\<close> by (simp add: pos_le_divide_eq)
    then show ?thesis by simp
  qed
  finally show ?thesis .
qed

lemma neg_row_first:
  "perplexity_and_prob [Fin (- 1), Fin 0] (Fin 1) 0 = Inr (Fin 0, [Fin 0, Fin 1])"
  by (simp add: perplexity_and_prob_def assign_def dist_exp_def dist_scale_def dist_div_def
      total_def dotprod_def Let_def)

lemma neg_row_at_2:
  "perplexity_and_prob [Fin (- 1), Fin 0] (Fin 2) (- 1)
     = Inr (Fin (ln (1 + exp (- 2)) + 2 * (- exp (- 2)) / (1 + exp (- 2))),
            [Fin (exp (- 2) / (1 + exp (- 2))), Fin (1 / (1 + exp (- 2)))])"
proof -
  have "(1::real) + exp (- 2) \<noteq> 0" "0 < (1::real) + exp (- 2)"
    using exp_gt_zero [of "- 2 :: real"] by linarith+
  then show ?thesis
    by (simp add: pp_no_index dist_exp_def dist_scale_def dist_div_def total_def
        dotprod_def add.commute)
qed


lemma neg_row_searching:
  assumes "s_log_perplexity s = Fin h" "h = 0 \<or> h \<le> - (1 / 15)"
  shows "searching (Fin (ln (19 / 20))) (Fin (1 / 100000)) s \<longleftrightarrow> s_iter s < 50"
proof -
  have "1 / 100000 < \<bar>h - ln (19 / 20)\<bar>"
    using assms(2) ln_19_20_bounds by linarith
  then show ?thesis
    using assms(1) by (simp add: searching_def fsub_def)
qed

lemma neg_row_step_up:
  assumes "s_betamax s = PInf" "s_beta s = Fin 1" "s_log_perplexity s = Fin 0"
  shows "search_step [Fin (- 1), Fin 0] (Fin (ln (19 / 20))) s
     = Inr \<lparr>s_betamin = Fin 1, s_betamax = PInf, s_beta = Fin 2,
            s_log_perplexity = Fin (ln (1 + exp (- 2)) + 2 * (- exp (- 2)) / (1 + exp (- 2))),
            s_P = [Fin (exp (- 2) / (1 + exp (- 2))), Fin (1 / (1 + exp (- 2)))],
            s_iter = Suc (s_iter s)\<rparr>"
proof -
  have "ln (19 / 20 :: real) < 0" using ln_19_20_bounds(2) by linarith
  then show ?thesis
    using assms by (simp add: search_step_def neg_row_at_2 Let_def del: ln_less_zero_iff)
qed

lemma neg_row_step_down:
  assumes "s_betamin s = Fin 1" "s_beta s = Fin 2"
    "s_log_perplexity s = Fin (ln (1 + exp (- 2)) + 2 * (- exp (- 2)) / (1 + exp (- 2)))"
  shows "search_step [Fin (- 1), Fin 0] (Fin (ln (19 / 20))) s
     = Inr \<lparr>s_betamin = Fin 1, s_betamax = Fin 2, s_beta = Fin 2,
            s_log_perplexity = Fin (ln (1 + exp (- 2)) + 2 * (- exp (- 2)) / (1 + exp (- 2))),
            s_P = [Fin (exp (- 2) / (1 + exp (- 2))), Fin (1 / (1 + exp (- 2)))],
            s_iter = Suc (s_iter s)\<rparr>"
proof -
  have "\<not> ln (19 / 20 :: real) < ln (1 + exp (- 2)) + 2 * (- exp (- 2)) / (1 + exp (- 2))"
    using ln_19_20_bounds(1) H2_upper by linarith
  then show ?thesis
    using assms by (simp add: search_step_def neg_row_at_2 Let_def)
qed

section \<open>Lengths, results and the validation of a row\<close>

lemma pp_length:
  "perplexity_and_prob D b i = Inr (H, P) \<Longrightarrow> length P = length D"
  by (auto simp: perplexity_and_prob_def assign_def Let_def dist_exp_def dist_scale_def
      dist_div_def split: if_splits)

lemma pp_in_range_returns:
  "i = - 1 \<or> (0 \<le> i \<and> nat i < length D) \<Longrightarrow> \<exists>H P. perplexity_and_prob D b i = Inr (H, P)"
  by (auto simp: perplexity_and_prob_def assign_def Let_def dist_exp_def dist_scale_def)

lemma search_step_length:
  "search_step Di logT s = Inr s' \<Longrightarrow> length (s_P s') = length Di"
  by (auto simp: search_step_def Let_def pp_no_index dist_exp_def dist_scale_def dist_div_def
      split: if_splits)

lemma search_loop_length:
  "search_loop Di logT tol s = Inr s' \<Longrightarrow> length (s_P s) = length Di
     \<Longrightarrow> length (s_P s') = length Di"
proof (induction Di logT tol s rule: search_loop.induct)
  case (1 Di logT tol s)
  show ?case
  proof (cases "searching logT tol s")
    case False
    with "1.prems" show ?thesis by (simp add: search_loop_stop)
  next
    case True
    obtain s1 where s1: "search_step Di logT s = Inr s1"
      using search_step_total by blast
    with True "1.prems"(1) have "search_loop Di logT tol s1 = Inr s'"
      by (simp add: search_loop_continue)
    with "1.IH" [OF True s1] s1 show ?thesis
      by (simp add: search_step_length)
  qed
qed

lemma bsp_length:
  assumes "binary_search_perplexity Di T i tol = Inr (P, b)"
  shows "length P = length Di"
proof -
  from assms obtain s where s: "binary_search_perplexity_locals Di T i tol = Inr s" "P = s_P s"
    by (auto simp: binary_search_perplexity_def split: sum.splits)
  then obtain H P0 where first: "perplexity_and_prob Di (Fin 1) i = Inr (H, P0)"
    and loop: "search_loop Di (flog T) tol (search_init H P0) = Inr s"
    by (auto simp: binary_search_perplexity_locals_def Let_def split: sum.splits)
  have "length (s_P (search_init H P0)) = length Di"
    using pp_length [OF first] by (simp add: search_init_def)
  with loop s(2) show ?thesis
    using search_loop_length by blast
qed

lemma bsp_returns:
  assumes "i = - 1 \<or> (0 \<le> i \<and> nat i < length Di)"
  shows "\<exists>P b. binary_search_perplexity Di T i tol = Inr (P, b)"
proof -
  obtain H P0 where first: "perplexity_and_prob Di (Fin 1) i = Inr (H, P0)"
    using pp_in_range_returns [OF assms] by blast
  obtain s where "search_loop Di (flog T) tol (search_init H P0) = Inr s"
    using search_loop_trace by blast
  with first show ?thesis
    by (simp add: binary_search_perplexity_def binary_search_perplexity_locals_def)
qed

lemma check_row_past_end:
  "length P_row = n \<Longrightarrow> elem_at P_row (int n) = None"
  "length P_row = n \<Longrightarrow> check_row n P_row = Inl (OutOfRange (int n) n)"
  by (simp_all add: check_row_def elem_at_def)

lemma calibrate_row_square:
  assumes "wf_array D" "shape1 D = shape0 D" "i < shape0 D"
  shows "\<exists>P_row b.
           binary_search_perplexity (take (shape0 D) (elems D ! i)) perplexity (int i) tolerance
             = Inr (P_row, b)
         \<and> length P_row = shape0 D"
    and "calibrate_row D (shape0 D) tolerance perplexity i
           = Inl (OutOfRange (int (shape0 D)) (shape0 D))"
proof -
  let ?n = "shape0 D"
  let ?row = "take ?n (elems D ! i)"
  have "elems D ! i \<in> set (elems D)"
    using assms(1,3) by (simp add: wf_array_def)
  then have len: "length ?row = ?n"
    using assms(1,2) by (simp add: wf_array_def)
  then have "int i = - 1 \<or> (0 \<le> int i \<and> nat (int i) < length ?row)"
    using assms(3) by simp
  then obtain P_row b where r:
    "binary_search_perplexity ?row perplexity (int i) tolerance = Inr (P_row, b)"
    using bsp_returns by blast
  then have l: "length P_row = ?n"
    using bsp_length len by metis
  show "\<exists>P_row b. binary_search_perplexity ?row perplexity (int i) tolerance = Inr (P_row, b)
         \<and> length P_row = ?n"
    using r l by blast
  show "calibrate_row D ?n tolerance perplexity i = Inl (OutOfRange (int ?n) ?n)"
    using r l by (simp add: calibrate_row_def check_row_past_end)
qed

lemma d2p_square:
  assumes "wf_array D" "shape1 D = shape0 D"
  shows "distances_to_probabilities D tolerance perplexity =
           (if shape0 D = 0 then Inr (new_array 0 0)
            else Inl (OutOfRange (int (shape0 D)) (shape0 D)))"
proof (cases "shape0 D = 0")
  case True
  then show ?thesis
    using assms(2) by (simp add: distances_to_probabilities_def)
next
  case False
  then have "[0..<shape0 D] = 0 # [1..<shape0 D]"
    by (simp add: upt_conv_Cons)
  moreover have "calibrate_row D (shape0 D) tolerance perplexity 0
           = Inl (OutOfRange (int (shape0 D)) (shape0 D))"
    using calibrate_row_square(2) [OF assms, of 0] False by simp
  ultimately show ?thesis
    using assms(2) False by (simp add: distances_to_probabilities_def new_array_def Let_def)
qed

lemma d2p_not_square:
  "shape1 D \<noteq> shape0 D
     \<Longrightarrow> distances_to_probabilities D tolerance perplexity = Inl (Exception ''D is not square'')"
  by (simp add: distances_to_probabilities_def)


lemma wf_new_array: "n < 2 ^ 31 \<Longrightarrow> m < 2 ^ 31 \<Longrightarrow> wf_array (new_array n m)"
  by (simp add: wf_array_def new_array_def)

lemma new_array_2_2: "wf_array (new_array 2 2)" "shape0 (new_array 2 2) = 2"
  "shape1 (new_array 2 2) = 2"
  by (simp_all add: wf_array_def new_array_def)

lemma bsp_error:
  "binary_search_perplexity Di T i tol = Inl e \<Longrightarrow> \<exists>k n. e = OutOfRange k n"
proof -
  assume a: "binary_search_perplexity Di T i tol = Inl e"
  show ?thesis
  proof (cases "perplexity_and_prob Di (Fin 1) i")
    case (Inl e')
    then have "e' = OutOfRange i (length Di)"
      by (auto simp: perplexity_and_prob_def assign_def Let_def dist_exp_def dist_scale_def
          split: if_splits sum.splits)
    with Inl a show ?thesis
      by (auto simp: binary_search_perplexity_def binary_search_perplexity_locals_def)
  next
    case (Inr r)
    obtain H P where r: "r = (H, P)" by (cases r)
    obtain s where "search_loop Di (flog T) tol (search_init H P) = Inr s"
      using search_loop_trace by blast
    with Inr r a show ?thesis
      by (simp add: binary_search_perplexity_def binary_search_perplexity_locals_def)
  qed
qed

lemma calibrate_row_error:
  assumes "calibrate_row D n tol perp i = Inl e"
  shows "e \<noteq> Exception ''D is not square''"
proof (cases "binary_search_perplexity (take n (elems D ! i)) perp (int i) tol")
  case (Inl e')
  with assms have "e = e'" by (simp add: calibrate_row_def)
  with Inl bsp_error show ?thesis by blast
next
  case (Inr r)
  obtain P b where r: "r = (P, b)" by (cases r)
  with Inr assms have "check_row n P = Inl e"
    by (simp add: calibrate_row_def split: sum.splits)
  then show ?thesis
    by (auto simp: check_row_def split: if_splits option.splits)
qed

lemma rows_loop_error:
  "rows_loop D n tol perp rows st = Inl e \<Longrightarrow> e \<noteq> Exception ''D is not square''"
proof (induction rows arbitrary: st)
  case Nil
  then show ?case by simp
next
  case (Cons i rest)
  obtain P beta where st: "st = (P, beta)" by (cases st)
  show ?case
  proof (cases "calibrate_row D n tol perp i")
    case (Inl e')
    with Cons.prems st have "e = e'" by simp
    with Inl calibrate_row_error show ?thesis by blast
  next
    case (Inr r)
    obtain P_row b where "r = (P_row, b)" by (cases r)
    with Inr Cons.prems st Cons.IH show ?thesis by simp
  qed
qed

section \<open>The loops of \<^verbatim>\<open>vectors_to_distances\<close>\<close>

lemma fill_vector_prefix:
  "k \<le> length s \<Longrightarrow>
     foldl (\<lambda>s i. s[i := f i]) s [0..<k] = map f [0..<k] @ drop k s"
proof (induction k)
  case 0
  then show ?case by simp
next
  case (Suc k)
  then have k: "k < length s" by simp
  have "(map f [0..<k] @ drop k s)[k := f k] = map f [0..<k] @ (drop k s)[0 := f k]"
    by (simp add: list_update_append)
  also have "(drop k s)[0 := f k] = f k # drop (Suc k) s"
    using k by (simp add: Cons_nth_drop_Suc [symmetric])
  finally show ?case
    using Suc.IH k by simp
qed

lemma fill_vector:
  "foldl (\<lambda>s i. s[i := f i]) (replicate n z) [0..<n] = map f [0..<n]"
  using fill_vector_prefix [of n "replicate n z" f] by simp

lemma square_of_new_array: "square_of n (new_array n n)"
  by (simp add: square_of_def new_array_def)

lemma square_of_set_elem:
  assumes "square_of n A"
  shows "square_of n (set_elem A i j v)"
proof (cases "i < length (elems A)")
  case True
  then have "length (elems A ! i) = n"
    using assms nth_mem [of i "elems A"] by (auto simp: square_of_def)
  then show ?thesis
    using assms
    by (auto simp: square_of_def set_elem_def dest!: set_update_subset_insert [THEN subsetD])
next
  case False
  then have "(elems A)[i := (elems A ! i)[j := v]] = elems A"
    by (simp add: list_update_beyond)
  then show ?thesis
    using assms by (simp add: square_of_def set_elem_def)
qed

lemma get_set_elem:
  assumes "square_of n A" "i < n" "j < n" "a < n" "b < n"
  shows "get_elem (set_elem A i j v) a b = (if a = i \<and> b = j then v else get_elem A a b)"
proof -
  have "length (elems A) = n" "length (elems A ! i) = n"
    using assms(1,2) nth_mem [of i "elems A"] by (auto simp: square_of_def)
  then show ?thesis
    using assms(2-5) by (simp add: get_elem_def set_elem_def nth_list_update)
qed

lemma fill_row_prefix:
  assumes "square_of n A" "i < n"
  shows "i \<le> k \<Longrightarrow> k \<le> n \<Longrightarrow>
      square_of n (foldl (\<lambda>D j. let v = f i j in set_elem (set_elem D j i v) i j v) A [i..<k])
    \<and> (\<forall>a < n. \<forall>b < n.
          get_elem (foldl (\<lambda>D j. let v = f i j in set_elem (set_elem D j i v) i j v) A [i..<k]) a b
          = (if a = i \<and> i \<le> b \<and> b < k then f i b
             else if b = i \<and> i \<le> a \<and> a < k then f i a
             else get_elem A a b))"
proof (induction k)
  case 0
  then show ?case using assms by simp
next
  case (Suc k)
  let ?step = "\<lambda>D j. let v = f i j in set_elem (set_elem D j i v) i j v"
  show ?case
  proof (cases "i = Suc k")
    case True
    then show ?thesis using assms by auto
  next
    case False
    with Suc.prems have ik: "i \<le> k" and kn: "k < n" by simp_all
    let ?B = "foldl ?step A [i..<k]"
    from Suc.IH ik kn have sq: "square_of n ?B"
      and IH: "\<forall>a < n. \<forall>b < n. get_elem ?B a b
          = (if a = i \<and> i \<le> b \<and> b < k then f i b
             else if b = i \<and> i \<le> a \<and> a < k then f i a
             else get_elem A a b)"
      by simp_all
    have unfold: "foldl ?step A [i..<Suc k] = set_elem (set_elem ?B k i (f i k)) i k (f i k)"
      using ik by (simp add: Let_def)
    have sq1: "square_of n (set_elem ?B k i (f i k))"
      using sq by (rule square_of_set_elem)
    have sq2: "square_of n (set_elem (set_elem ?B k i (f i k)) i k (f i k))"
      using sq1 by (rule square_of_set_elem)
    have vals: "get_elem (set_elem (set_elem ?B k i (f i k)) i k (f i k)) a b
          = (if a = i \<and> i \<le> b \<and> b < Suc k then f i b
             else if b = i \<and> i \<le> a \<and> a < Suc k then f i a
             else get_elem A a b)" if "a < n" "b < n" for a b
    proof -
      have e1: "get_elem (set_elem (set_elem ?B k i (f i k)) i k (f i k)) a b
          = (if a = i \<and> b = k then f i k else get_elem (set_elem ?B k i (f i k)) a b)"
        using sq1 assms(2) kn that by (rule get_set_elem)
      have e2: "get_elem (set_elem ?B k i (f i k)) a b
          = (if a = k \<and> b = i then f i k else get_elem ?B a b)"
        using sq kn assms(2) that by (rule get_set_elem)
      have e3: "get_elem ?B a b
          = (if a = i \<and> i \<le> b \<and> b < k then f i b
             else if b = i \<and> i \<le> a \<and> a < k then f i a
             else get_elem A a b)"
        using IH that by blast
      show ?thesis
        unfolding e1 e2 e3 using ik by (auto simp: less_Suc_eq)
    qed
    show ?thesis
      unfolding unfold using sq2 vals by blast
  qed
qed

lemma fill_row_values:
  assumes "square_of n A" "i < n"
  shows "square_of n (fill_row sum_X XXT n A i)"
    and "a < n \<Longrightarrow> b < n \<Longrightarrow>
          get_elem (fill_row sum_X XXT n A i) a b
          = (if a = i \<and> i \<le> b then dist_entry sum_X XXT i b
             else if b = i \<and> i \<le> a then dist_entry sum_X XXT i a
             else get_elem A a b)"
  using fill_row_prefix [OF assms, of n "dist_entry sum_X XXT"] assms(2)
  by (simp_all add: fill_row_def)

lemma fill_rows_prefix:
  "m \<le> n \<Longrightarrow>
     square_of n (foldl (fill_row sum_X XXT n) (new_array n n) [0..<m])
   \<and> (\<forall>a < n. \<forall>b < n. min a b < m \<longrightarrow>
         get_elem (foldl (fill_row sum_X XXT n) (new_array n n) [0..<m]) a b
         = dist_entry sum_X XXT (min a b) (max a b))"
proof (induction m)
  case 0
  then show ?case by (simp add: square_of_new_array)
next
  case (Suc m)
  let ?B = "foldl (fill_row sum_X XXT n) (new_array n n) [0..<m]"
  from Suc have mn: "m < n" and sq: "square_of n ?B"
    and IH: "\<forall>a < n. \<forall>b < n. min a b < m \<longrightarrow>
         get_elem ?B a b = dist_entry sum_X XXT (min a b) (max a b)"
    by simp_all
  have unfold: "foldl (fill_row sum_X XXT n) (new_array n n) [0..<Suc m]
      = fill_row sum_X XXT n ?B m"
    by simp
  have "get_elem (fill_row sum_X XXT n ?B m) a b = dist_entry sum_X XXT (min a b) (max a b)"
    if "a < n" "b < n" "min a b < Suc m" for a b
  proof -
    have "(a = m \<and> m \<le> b) \<or> (b = m \<and> m \<le> a) \<or> min a b < m"
      using that(3) by (cases "a \<le> b") (auto simp: min_def less_Suc_eq)
    then consider "a = m" "m \<le> b" | "b = m" "m \<le> a" | "min a b < m"
      by blast
    then show ?thesis
    proof cases
      case 1
      then show ?thesis
        using that by (simp add: fill_row_values(2) [OF sq mn] min_def max_def)
    next
      case 2
      then show ?thesis
        using that by (auto simp: fill_row_values(2) [OF sq mn] min_def max_def)
    next
      case 3
      then have "\<not> (a = m \<and> m \<le> b)" "\<not> (b = m \<and> m \<le> a)" by auto
      then show ?thesis
        using that 3 IH by (simp add: fill_row_values(2) [OF sq mn])
    qed
  qed
  then show ?case
    unfolding unfold using fill_row_values(1) [OF sq mn] by blast
qed

lemma sq_dist_identity:
  "length x = length y \<Longrightarrow> sq_dist x y = dot x x + dot y y - 2 * dot x y"
proof (induction x y rule: list_induct2)
  case Nil
  then show ?case by (simp add: sq_dist_def dot_def)
next
  case (Cons a x b y)
  then show ?case
    by (simp add: sq_dist_def dot_def power2_eq_square algebra_simps)
qed

lemma dot_commute: "dot x y = dot y x"
proof -
  have "map (\<lambda>(a, b). a * b) (zip x y) = map (\<lambda>(a, b). a * b) (zip y x)"
    by (induction x arbitrary: y) (auto simp: zip_Cons1 mult.commute split: list.splits)
  then show ?thesis by (simp add: dot_def)
qed

lemma dotprod_dot: "dotprod (map Fin x) (map Fin y) = Fin (dot x y)"
  by (simp add: dotprod_Fin dot_def)

lemma dist_entry_Fin:
  assumes "sum_X ! i = Fin a" "sum_X ! j = Fin b" "get_elem XXT i j = Fin c"
  shows "dist_entry sum_X XXT i j = Fin (a + b - 2 * c)"
  using assms by (simp add: dist_entry_def fsub_def)

lemma vectors_to_distances_entries:
  assumes len: "length xs = n" and rows: "\<forall>r \<in> set xs. length r = d"
  defines "X \<equiv> \<lparr>shape0 = n, shape1 = d, elems = map (map Fin) xs\<rparr>"
  shows "square_of n (vectors_to_distances X)"
    and "a < n \<Longrightarrow> b < n \<Longrightarrow>
      get_elem (vectors_to_distances X) a b
        = Fin (dot (xs ! min a b) (xs ! min a b) + dot (xs ! max a b) (xs ! max a b)
               - 2 * dot (xs ! min a b) (xs ! max a b))"
proof -
  define sum_X where
    "sum_X = foldl (\<lambda>s i. s[i := vec_dotprod_dp (elems X ! i) (elems X ! i) d])
                    (replicate n (Fin 0)) [0..<n]"
  define XXT where "XXT = multiply_transposed X X"
  have v2d: "vectors_to_distances X = foldl (fill_row sum_X XXT n) (new_array n n) [0..<n]"
    by (simp add: vectors_to_distances_def Let_def sum_X_def XXT_def X_def)
  have row: "elems X ! i = map Fin (xs ! i)" "length (xs ! i) = d" if "i < n" for i
    using that len rows by (simp_all add: X_def)
  have sum_X: "sum_X ! i = Fin (dot (xs ! i) (xs ! i))" if "i < n" for i
  proof -
    have "sum_X = map (\<lambda>i. vec_dotprod_dp (elems X ! i) (elems X ! i) d) [0..<n]"
      unfolding sum_X_def by (rule fill_vector)
    then have "sum_X ! i = vec_dotprod_dp (map Fin (xs ! i)) (map Fin (xs ! i)) d"
      using that by (simp add: row)
    then show ?thesis
      using row(2) [OF that] by (simp add: vec_dotprod_dp_def dotprod_dot)
  qed
  have XXT: "get_elem XXT i j = Fin (dot (xs ! i) (xs ! j))" if "i < n" "j < n" for i j
    using that len
    by (simp add: XXT_def multiply_transposed_def get_elem_def X_def dotprod_dot)
  show "square_of n (vectors_to_distances X)"
    unfolding v2d using fill_rows_prefix [of n n sum_X XXT] by simp
  show "get_elem (vectors_to_distances X) a b
        = Fin (dot (xs ! min a b) (xs ! min a b) + dot (xs ! max a b) (xs ! max a b)
               - 2 * dot (xs ! min a b) (xs ! max a b))" if "a < n" "b < n"
  proof -
    have m: "min a b < n" "max a b < n" using that by simp_all
    have "get_elem (vectors_to_distances X) a b = dist_entry sum_X XXT (min a b) (max a b)"
      unfolding v2d using fill_rows_prefix [of n n sum_X XXT] that m by simp
    also have "\<dots> = Fin (dot (xs ! min a b) (xs ! min a b) + dot (xs ! max a b) (xs ! max a b)
               - 2 * dot (xs ! min a b) (xs ! max a b))"
      using sum_X [OF m(1)] sum_X [OF m(2)] XXT [OF m] by (rule dist_entry_Fin)
    finally show ?thesis .
  qed
qed

section \<open>The bracket of the search\<close>

text \<open>
  Every execution of the loop body keeps the bracket, does not lower \<open>betamin\<close> and
  does not raise \<open>betamax\<close>; the inequalities between the bounds and \<open>beta\<close> are not
  strict.
\<close>

lemma bracket_init: "bracket (search_init H P)"
  by (simp add: bracket_def search_init_def)

lemma search_step_bracket:
  assumes "bracket s" "search_step Di logT s = Inr s'"
  shows "bracket s'"
    and "\<not> fgt (s_betamin s) (s_betamin s')"
    and "\<not> fgt (s_betamax s') (s_betamax s)"
    and "\<not> fgt (s_betamin s') (s_beta s')"
    and "\<not> fgt (s_beta s') (s_betamax s')"
proof -
  obtain b where b: "s_beta s = Fin b" "0 < b"
    using assms(1) by (auto simp: bracket_def split: flt.splits)
  have lo: "s_betamin s = NInf \<or> (\<exists>lo. s_betamin s = Fin lo \<and> lo \<le> b)"
    using assms(1) b by (auto simp: bracket_def split: flt.splits)
  have hi: "s_betamax s = PInf \<or> (\<exists>hi. s_betamax s = Fin hi \<and> b \<le> hi)"
    using assms(1) b by (auto simp: bracket_def split: flt.splits)
  show "bracket s'" "\<not> fgt (s_betamin s) (s_betamin s')" "\<not> fgt (s_betamax s') (s_betamax s)"
    "\<not> fgt (s_betamin s') (s_beta s')" "\<not> fgt (s_beta s') (s_betamax s')"
    using assms(2) b lo hi
    by (auto simp: search_step_def pp_no_index Let_def bracket_def split: if_splits)
qed

lemma search_steps_bracket:
  "bracket s \<Longrightarrow> search_steps k Di logT s = Inr s' \<Longrightarrow>
     bracket s' \<and> \<not> fgt (s_betamin s) (s_betamin s') \<and> \<not> fgt (s_betamax s') (s_betamax s)"
proof (induction k arbitrary: s)
  case 0
  then show ?case by (auto simp: bracket_def split: flt.splits)
next
  case (Suc k)
  obtain s1 where s1: "search_step Di logT s = Inr s1"
    using search_step_total by blast
  with Suc.prems have rest: "search_steps k Di logT s1 = Inr s'" by simp
  note st = search_step_bracket [OF Suc.prems(1) s1]
  from Suc.IH [OF st(1) rest] have IH: "bracket s'" "\<not> fgt (s_betamin s1) (s_betamin s')"
    "\<not> fgt (s_betamax s') (s_betamax s1)" by simp_all
  have b0: "bracket s" by fact
  show ?case
    using IH st(1-3) b0
    by (auto simp: bracket_def split: flt.splits)
qed

section \<open>Facts about rounding\<close>

lemma rounded_exact [simp]: "rounded Fin v = v"
  by (cases v) (simp_all add: rounded_def)

lemma rounded_simps [simp]:
  "rounded rnd (Fin x) = rnd x" "rounded rnd PInf = PInf" "rounded rnd NInf = NInf"
  "rounded rnd NaN = NaN"
  by (simp_all add: rounded_def)

lemma round_even_of_int [simp]: "round_even (of_int m) = m"
  by (simp add: round_even_def)

lemma round_even_ge_floor: "\<lfloor>q\<rfloor> \<le> round_even q"
  by (simp add: round_even_def Let_def)

lemma ieee_round_zero [simp]: "ieee_round p emin emax 0 = Fin 0"
  by (simp add: ieee_round_def)

text \<open>The value of a rounding, once the binade of the argument is known.\<close>

lemma ieee_round_binade:
  fixes x :: real
  assumes "2 powr of_int e \<le> \<bar>x\<bar>" "\<bar>x\<bar> < 2 powr (of_int e + 1)" "emin \<le> e"
  shows "ieee_round p emin emax x =
     (let u = 2 powr (of_int e - (of_nat p - 1));
          y = of_int (round_even (x / u)) * u
      in if (2 - 2 powr (1 - of_nat p)) * 2 powr of_int emax < \<bar>y\<bar>
         then (if 0 < x then PInf else NInf)
         else Fin y)"
proof -
  have pos: "0 < \<bar>x\<bar>"
    using assms(1) powr_gt_zero [of 2 "of_int e"] by linarith
  then have nz: "x \<noteq> 0" by simp
  have "\<lfloor>log 2 \<bar>x\<bar>\<rfloor> = e"
    using pos assms(1,2) by (simp add: floor_log_eq_powr_iff)
  then have "max \<lfloor>log 2 \<bar>x\<bar>\<rfloor> emin = e"
    using assms(3) by simp
  then show ?thesis
    using nz by (simp add: ieee_round_def Let_def)
qed

lemma binary32_exact:
  fixes x :: real
  assumes "2 powr of_int e \<le> \<bar>x\<bar>" "\<bar>x\<bar> < 2 powr (of_int e + 1)" "- 126 \<le> e"
    and "x = of_int m * 2 powr (of_int e - 23)"
    and "\<bar>x\<bar> \<le> (2 - 2 powr (- 23)) * 2 ^ 127"
  shows "binary32 x = Fin x"
proof -
  have u: "2 powr (of_int e - 23) \<noteq> (0::real)" by simp
  have "x / 2 powr (of_int e - 23) = of_int m"
    using assms(4) u by simp
  then show ?thesis
    using ieee_round_binade [OF assms(1-3), of 24 127] assms(4,5)
    by (simp add: binary32_def Let_def)
qed

lemma binary64_exact:
  fixes x :: real
  assumes "2 powr of_int e \<le> \<bar>x\<bar>" "\<bar>x\<bar> < 2 powr (of_int e + 1)" "- 1022 \<le> e"
    and "x = of_int m * 2 powr (of_int e - 52)"
    and "\<bar>x\<bar> \<le> (2 - 2 powr (- 52)) * 2 ^ 1023"
  shows "binary64 x = Fin x"
proof -
  have u: "2 powr (of_int e - 52) \<noteq> (0::real)" by simp
  have "x / 2 powr (of_int e - 52) = of_int m"
    using assms(4) u by simp
  then show ?thesis
    using ieee_round_binade [OF assms(1-3), of 53 1023] assms(4,5)
    by (simp add: binary64_def Let_def)
qed

lemma binary32_overflow:
  fixes x :: real
  assumes "2 ^ 128 \<le> x"
  shows "binary32 x = PInf"
proof -
  have xpos: "0 < x" using assms by (smt (verit) zero_less_power)
  define e where "e = \<lfloor>log 2 x\<rfloor>"
  have lo: "2 powr of_int e \<le> x" and hi: "x < 2 powr (of_int e + 1)"
    using floor_log_eq_powr_iff [of x 2 e] xpos by (simp_all add: e_def)
  have "(128::real) \<le> log 2 x"
    using assms xpos le_log_iff [of 2 x 128] by simp
  then have e128: "128 \<le> e"
    by (simp add: e_def le_floor_iff)
  define u :: real where "u = 2 powr (of_int e - 23)"
  have upos: "0 < u" by (simp add: u_def)
  have ue: "2 powr of_int e = 8388608 * u"
    by (simp add: u_def powr_diff)
  then have "(8388608::real) \<le> x / u"
    using lo upos by (simp add: pos_le_divide_eq)
  then have "8388608 \<le> \<lfloor>x / u\<rfloor>" by (simp add: le_floor_iff)
  then have r: "8388608 \<le> round_even (x / u)"
    using round_even_ge_floor [of "x / u"] by linarith
  have "2 powr (real_of_int 128) \<le> (2::real) powr real_of_int e"
    using e128 by (intro powr_mono) simp_all
  then have "2 ^ 128 \<le> (2::real) powr real_of_int e" by simp
  also have "\<dots> = 8388608 * u"
    by (rule ue)
  also have "\<dots> \<le> of_int (round_even (x / u)) * u"
    using r upos by (simp add: mult_le_cancel_right)
  finally have big: "2 ^ 128 \<le> of_int (round_even (x / u)) * u" .
  have "(2 - 2 powr (- 23)) * 2 ^ 127 < (2 ^ 128 :: real)"
    by (simp add: powr_neg_numeral)
  with big have over: "(2 - 2 powr (- 23)) * 2 ^ 127 < \<bar>of_int (round_even (x / u)) * u\<bar>"
    by linarith
  have xa: "\<bar>x\<bar> = x" using xpos by simp
  have "- 126 \<le> e" using e128 by simp
  from ieee_round_binade [of e x "- 126" 24 127] lo hi this xa
  show ?thesis
    using over xpos by (simp add: binary32_def Let_def u_def)
qed



lemma binary32_values:
  "binary32 0 = Fin 0" "binary32 1 = Fin 1" "binary32 1000 = Fin 1000"
  "binary32 16777216 = Fin 16777216" "binary32 16781312 = Fin 16781312"
  "binary32 16785408 = Fin 16785408" "binary32 33562624 = Fin 33562624"
proof -
  show "binary32 0 = Fin 0" by (simp add: binary32_def)
  show "binary32 1 = Fin 1"
    by (rule binary32_exact [where e = 0 and m = 8388608]) (simp_all add: powr_neg_numeral)
  show "binary32 1000 = Fin 1000"
    by (rule binary32_exact [where e = 9 and m = 16384000]) (simp_all add: powr_neg_numeral)
  show "binary32 16777216 = Fin 16777216"
    by (rule binary32_exact [where e = 24 and m = 8388608]) (simp_all add: powr_neg_numeral)
  show "binary32 16781312 = Fin 16781312"
    by (rule binary32_exact [where e = 24 and m = 8390656]) (simp_all add: powr_neg_numeral)
  show "binary32 16785408 = Fin 16785408"
    by (rule binary32_exact [where e = 24 and m = 8392704]) (simp_all add: powr_neg_numeral)
  show "binary32 33562624 = Fin 33562624"
    by (rule binary32_exact [where e = 25 and m = 8390656]) (simp_all add: powr_neg_numeral)
qed

lemma binary64_values:
  "binary64 0 = Fin 0" "binary64 16777216 = Fin 16777216" "binary64 16781312 = Fin 16781312"
  "binary64 16785409 = Fin 16785409"
  "binary64 (2 ^ 128) = Fin (2 ^ 128)"
proof -
  show "binary64 0 = Fin 0" by (simp add: binary64_def)
  show "binary64 16777216 = Fin 16777216"
    by (rule binary64_exact [where e = 24 and m = "16777216 * 2 ^ 28"])
      (simp_all add: powr_neg_numeral)
  show "binary64 16781312 = Fin 16781312"
    by (rule binary64_exact [where e = 24 and m = "16781312 * 2 ^ 28"])
      (simp_all add: powr_neg_numeral)
  show "binary64 16785409 = Fin 16785409"
    by (rule binary64_exact [where e = 24 and m = "16785409 * 2 ^ 28"])
      (simp_all add: powr_neg_numeral)
  show "binary64 (2 ^ 128) = Fin (2 ^ 128)"
    by (rule binary64_exact [where e = 128 and m = "2 ^ 52"])
      (simp_all add: powr_neg_numeral)
qed

lemma binary32_huge: "binary32 (2 ^ 128) = PInf"
  by (rule binary32_overflow) simp


lemma binary32_tie: "binary32 16785409 = Fin 16785408"
proof -
  have "round_even (16785409 / 2) = 8392704"
    by (simp add: round_even_def Let_def)
  then show ?thesis
    using ieee_round_binade [of 24 16785409 "- 126" 24 127]
    by (simp add: binary32_def Let_def powr_neg_numeral)
qed





section \<open>The exact row of \<^verbatim>\<open>perplexity_and_prob\<close>\<close>



section \<open>\<^verbatim>\<open>perplexity_and_prob\<close> with rounding\<close>







section \<open>\<^verbatim>\<open>vectors_to_distances\<close> with rounding\<close>

lemma fill_row_fl_values:
  assumes "square_of n A" "i < n"
  shows "square_of n (fill_row_fl rf sum_X XXT n A i)"
    and "a < n \<Longrightarrow> b < n \<Longrightarrow>
          get_elem (fill_row_fl rf sum_X XXT n A i) a b
          = (if a = i \<and> i \<le> b then dist_entry_fl rf sum_X XXT i b
             else if b = i \<and> i \<le> a then dist_entry_fl rf sum_X XXT i a
             else get_elem A a b)"
  using fill_row_prefix [OF assms, of n "dist_entry_fl rf sum_X XXT"] assms(2)
  by (simp_all add: fill_row_fl_def)

lemma fill_rows_fl_prefix:
  "m \<le> n \<Longrightarrow>
     square_of n (foldl (fill_row_fl rf sum_X XXT n) (new_array n n) [0..<m])
   \<and> (\<forall>a < n. \<forall>b < n. min a b < m \<longrightarrow>
         get_elem (foldl (fill_row_fl rf sum_X XXT n) (new_array n n) [0..<m]) a b
         = dist_entry_fl rf sum_X XXT (min a b) (max a b))"
proof (induction m)
  case 0
  then show ?case by (simp add: square_of_new_array)
next
  case (Suc m)
  let ?B = "foldl (fill_row_fl rf sum_X XXT n) (new_array n n) [0..<m]"
  from Suc have mn: "m < n" and sq: "square_of n ?B"
    and IH: "\<forall>a < n. \<forall>b < n. min a b < m \<longrightarrow>
         get_elem ?B a b = dist_entry_fl rf sum_X XXT (min a b) (max a b)"
    by simp_all
  have unfold: "foldl (fill_row_fl rf sum_X XXT n) (new_array n n) [0..<Suc m]
      = fill_row_fl rf sum_X XXT n ?B m"
    by simp
  have "get_elem (fill_row_fl rf sum_X XXT n ?B m) a b
      = dist_entry_fl rf sum_X XXT (min a b) (max a b)"
    if "a < n" "b < n" "min a b < Suc m" for a b
  proof -
    have "(a = m \<and> m \<le> b) \<or> (b = m \<and> m \<le> a) \<or> min a b < m"
      using that(3) by (cases "a \<le> b") (auto simp: min_def less_Suc_eq)
    then consider "a = m" "m \<le> b" | "b = m" "m \<le> a" | "min a b < m"
      by blast
    then show ?thesis
    proof cases
      case 1
      then show ?thesis
        using that by (simp add: fill_row_fl_values(2) [OF sq mn] min_def max_def)
    next
      case 2
      then show ?thesis
        using that by (auto simp: fill_row_fl_values(2) [OF sq mn] min_def max_def)
    next
      case 3
      then have "\<not> (a = m \<and> m \<le> b)" "\<not> (b = m \<and> m \<le> a)" by auto
      then show ?thesis
        using that 3 IH by (simp add: fill_row_fl_values(2) [OF sq mn])
    qed
  qed
  then show ?case
    unfolding unfold using fill_row_fl_values(1) [OF sq mn] by blast
qed

lemma sum_X_fl_map:
  "sum_X_fl rf dp X
     = map (\<lambda>i. rounded rf (dp (elems X ! i) (elems X ! i) (shape1 X))) [0..<shape0 X]"
  unfolding sum_X_fl_def by (rule fill_vector)

lemma v2d_fl_entries:
  shows "square_of (shape0 X) (vectors_to_distances_fl rf dp mt X)"
    and "a < shape0 X \<Longrightarrow> b < shape0 X \<Longrightarrow>
      get_elem (vectors_to_distances_fl rf dp mt X) a b
        = dist_entry_fl rf (sum_X_fl rf dp X) (mt X X) (min a b) (max a b)"
  using fill_rows_fl_prefix [of "shape0 X" "shape0 X" rf "sum_X_fl rf dp X" "mt X X"]
  by (simp_all add: vectors_to_distances_fl_def Let_def)

lemma dist_entry_fl_exact: "dist_entry_fl Fin sum_X XXT i j = dist_entry sum_X XXT i j"
  by (simp add: dist_entry_fl_def dist_entry_def)

lemma vectors_to_distances_fl_exact:
  "vectors_to_distances_fl Fin vec_dotprod_dp multiply_transposed X = vectors_to_distances X"
proof -
  have "fill_row_fl Fin sum_X XXT n = fill_row sum_X XXT n" for sum_X XXT n
    by (intro ext) (simp add: fill_row_fl_def fill_row_def dist_entry_fl_exact)
  then show ?thesis
    by (simp add: vectors_to_distances_fl_def vectors_to_distances_def sum_X_fl_def Let_def)
qed

lemma dist_entry_fl_diagonal:
  assumes "rf 0 = Fin 0" "sum_X ! i = Fin s" "get_elem XXT i i = Fin s" "isfinite (rf (2 * s))"
  shows "dist_entry_fl rf sum_X XXT i i = Fin 0"
proof -
  obtain t where t: "rf (2 * s) = Fin t"
    using assms(4) by (cases "rf (2 * s)") simp_all
  have "s + s = 2 * s" by simp
  then show ?thesis
    using assms(1-3) t by (simp add: dist_entry_fl_def fsub_def)
qed

section \<open>The exact entries of \<^verbatim>\<open>vectors_to_distances\<close>\<close>

lemma v2d_exact_squared_distance:
  assumes "wf_array \<lparr>shape0 = n, shape1 = d, elems = map (map Fin) xs\<rparr>"
  shows "shape0 (vectors_to_distances \<lparr>shape0 = n, shape1 = d, elems = map (map Fin) xs\<rparr>) = n
       \<and> shape1 (vectors_to_distances \<lparr>shape0 = n, shape1 = d, elems = map (map Fin) xs\<rparr>) = n
       \<and> (\<forall>i < n. \<forall>j < n.
            get_elem (vectors_to_distances \<lparr>shape0 = n, shape1 = d, elems = map (map Fin) xs\<rparr>) i j
              = Fin (sq_dist (xs ! i) (xs ! j))
          \<and> sq_dist (xs ! i) (xs ! j)
              = dot (xs ! i) (xs ! i) + dot (xs ! j) (xs ! j) - 2 * dot (xs ! i) (xs ! j)
          \<and> get_elem (vectors_to_distances \<lparr>shape0 = n, shape1 = d, elems = map (map Fin) xs\<rparr>) i j
              = get_elem (vectors_to_distances \<lparr>shape0 = n, shape1 = d, elems = map (map Fin) xs\<rparr>) j i
          \<and> get_elem (vectors_to_distances \<lparr>shape0 = n, shape1 = d, elems = map (map Fin) xs\<rparr>) i i
              = Fin 0)"
proof -
  let ?D = "vectors_to_distances \<lparr>shape0 = n, shape1 = d, elems = map (map Fin) xs\<rparr>"
  have xs: "length xs = n" "\<forall>r \<in> set xs. length r = d"
    using assms by (simp_all add: wf_array_def)
  have sq: "square_of n ?D"
    using vectors_to_distances_entries(1) [OF xs] .
  have len: "length (xs ! i) = length (xs ! j)" if "i < n" "j < n" for i j
    using that xs by simp
  have id: "sq_dist (xs ! i) (xs ! j)
              = dot (xs ! i) (xs ! i) + dot (xs ! j) (xs ! j) - 2 * dot (xs ! i) (xs ! j)"
    if "i < n" "j < n" for i j
    using len [OF that] by (rule sq_dist_identity)
  have val: "get_elem ?D i j = Fin (sq_dist (xs ! i) (xs ! j))" if "i < n" "j < n" for i j
  proof (cases "i \<le> j")
    case True
    then show ?thesis
      using vectors_to_distances_entries(2) [OF xs that] id [OF that]
      by (simp add: min_def max_def)
  next
    case False
    then show ?thesis
      using vectors_to_distances_entries(2) [OF xs that] id [OF that] dot_commute [of "xs ! i" "xs ! j"]
      by (simp add: min_def max_def)
  qed
  have sym: "get_elem ?D i j = get_elem ?D j i" if "i < n" "j < n" for i j
    using vectors_to_distances_entries(2) [OF xs that]
      vectors_to_distances_entries(2) [OF xs that(2) that(1)]
    by (simp add: min.commute max.commute)
  have diag: "get_elem ?D i i = Fin 0" if "i < n" for i
    using vectors_to_distances_entries(2) [OF xs that that] by simp
  show ?thesis
    using sq id val sym diag by (simp add: square_of_def)
qed


section \<open>The shape exceptions\<close>

text \<open>
  \<open>distances_to_probabilities\<close> raises the exception \<open>D is not square\<close> exactly for
  an input that is not square, and \<open>tsne\<close> raises an error exactly for an input that
  is not square; in both cases no matrix is returned.
\<close>

lemma shape_errors:
  assumes "wf_array D" and "wf_array probs"
  shows "(distances_to_probabilities D tolerance perplexity = Inl (Exception ''D is not square'')
            \<longleftrightarrow> shape1 D \<noteq> shape0 D)
       \<and> (shape1 D \<noteq> shape0 D \<longrightarrow>
            (\<forall>P. distances_to_probabilities D tolerance perplexity \<noteq> Inr P))
       \<and> ((\<exists>e. tsne probs num_dims = Inl e) \<longleftrightarrow> shape0 probs \<noteq> shape1 probs)
       \<and> (shape0 probs \<noteq> shape1 probs \<longrightarrow>
            tsne probs num_dims = Inl (Exception ''probabilities were the wrong shape'')
            \<and> (\<forall>Y. tsne probs num_dims \<noteq> Inr Y))"
proof -
  have "distances_to_probabilities D tolerance perplexity \<noteq> Inl (Exception ''D is not square'')"
    if sq: "shape1 D = shape0 D"
  proof
    assume a: "distances_to_probabilities D tolerance perplexity = Inl (Exception ''D is not square'')"
    then have "rows_loop D (shape0 D) tolerance perplexity [0..<shape0 D]
                  (new_array (shape0 D) (shape0 D), replicate (shape0 D) (Fin 1))
               = Inl (Exception ''D is not square'')"
      using sq by (auto simp: distances_to_probabilities_def Let_def split: sum.splits prod.splits)
    then show False using rows_loop_error by blast
  qed
  then show ?thesis
    by (auto simp: d2p_not_square tsne_def Let_def)
qed

section \<open>The probability row of \<^verbatim>\<open>perplexity_and_prob\<close>\<close>

text \<open>
  Claim C1.  The code exponentiates \<open>D * beta\<close>, not \<open>- beta * D\<close>.  On the row of
  distances 0 and 1 with bandwidth 1 and no designated index, the returned row gives the
  entry at distance 1 the weight \<open>exp 1\<close>, and it is not the row of the specification.
\<close>

theorem perplexity_and_prob_positive_exponent:
  "(\<exists>H. perplexity_and_prob [Fin 0, Fin 1] (Fin 1) (- 1)
          = Inr (H, [Fin (1 / (1 + exp 1)), Fin (exp 1 / (1 + exp 1))]))
   \<and> spec_prob_row [0, 1] 1 (- 1)
          = [Fin (1 / (1 + exp (- 1))), Fin (exp (- 1) / (1 + exp (- 1)))]
   \<and> [Fin (1 / (1 + exp 1)), Fin (exp 1 / (1 + exp 1))] \<noteq> spec_prob_row [0, 1] 1 (- 1)"
proof -
  have pos: "(1::real) + exp 1 \<noteq> 0"
    using exp_gt_zero [of "1::real"] by linarith
  have code: "\<exists>H. perplexity_and_prob [Fin 0, Fin 1] (Fin 1) (- 1)
          = Inr (H, [Fin (1 / (1 + exp 1)), Fin (exp 1 / (1 + exp 1))])"
    using pos
    by (simp add: pp_no_index dist_exp_def dist_scale_def dist_div_def total_def)
  have spec: "spec_prob_row [0, 1] 1 (- 1)
          = [Fin (1 / (1 + exp (- 1))), Fin (exp (- 1) / (1 + exp (- 1)))]"
    by (simp add: spec_prob_row_def spec_weights_def upt_rec)
  have "exp (1::real) \<noteq> exp (- 1)" by simp
  then have "1 / (1 + exp (1::real)) \<noteq> 1 / (1 + exp (- 1))"
    using pos exp_gt_zero [of "- 1 :: real"] by (simp add: field_simps)
  with code spec show ?thesis by simp
qed




section \<open>The search of \<^verbatim>\<open>binary_search_perplexity\<close>\<close>

text \<open>
  Claim C2.  The call inside the loop passes no index, so the self entry is cleared only
  by the call before the loop.  For three coincident points, target perplexity 30,
  self index 0 and tolerance \<open>1e-5\<close> the loop runs 50 times and the returned row is
  uniform over all three entries: its entry at the self index is \<open>1/3\<close>, not 0.
\<close>

theorem binary_search_perplexity_self_entry_lost:
  "binary_search_perplexity [Fin 0, Fin 0, Fin 0] (Fin 30) 0 (Fin (1 / 100000))
     = Inr ([Fin (1 / 3), Fin (1 / 3), Fin (1 / 3)], Fin (1 / 2 ^ 50))
   \<and> elem_at [Fin (1 / 3), Fin (1 / 3), Fin (1 / 3)] 0 \<noteq> Some (Fin 0)"
  using zero_row_search by (simp add: elem_at_def)

text \<open>
  Claim C5.  In the second branch of the loop body \<open>betamax\<close> is set to \<open>beta\<close> before
  \<open>beta = (beta + betamax) * 0.5\<close>, which therefore leaves \<open>beta\<close> unchanged.  For the
  row \<open>(-1, 0)\<close>, self index 0, target perplexity \<open>19/20\<close> and tolerance \<open>1e-5\<close> the
  loop body runs from the initial state and again from the state it produces, and after
  these two iterations both bounds are finite with \<open>betamin = 1\<close> and
  \<open>beta = betamax = 2\<close>: \<open>beta\<close> is not below \<open>betamax\<close>.
\<close>

theorem search_bracket_collapses:
  "\<exists>s0 s1 s2.
      (\<exists>H P. perplexity_and_prob [Fin (- 1), Fin 0] (Fin 1) 0 = Inr (H, P)
             \<and> s0 = search_init H P)
    \<and> searching (flog (Fin (19 / 20))) (Fin (1 / 100000)) s0
    \<and> search_step [Fin (- 1), Fin 0] (flog (Fin (19 / 20))) s0 = Inr s1
    \<and> searching (flog (Fin (19 / 20))) (Fin (1 / 100000)) s1
    \<and> search_step [Fin (- 1), Fin 0] (flog (Fin (19 / 20))) s1 = Inr s2
    \<and> s_betamin s2 = Fin 1 \<and> s_betamax s2 = Fin 2 \<and> s_beta s2 = Fin 2
    \<and> isfinite (s_betamin s2) \<and> isfinite (s_betamax s2)
    \<and> \<not> fgt (s_betamax s2) (s_beta s2)"
proof -
  let ?s0 = "search_init (Fin 0) [Fin 0, Fin 1]"
  let ?s1 = "\<lparr>s_betamin = Fin 1, s_betamax = PInf, s_beta = Fin 2,
            s_log_perplexity = Fin (ln (1 + exp (- 2)) + 2 * (- exp (- 2)) / (1 + exp (- 2))),
            s_P = [Fin (exp (- 2) / (1 + exp (- 2))), Fin (1 / (1 + exp (- 2)))],
            s_iter = Suc (s_iter ?s0)\<rparr>"
  let ?s2 = "\<lparr>s_betamin = Fin 1, s_betamax = Fin 2, s_beta = Fin 2,
            s_log_perplexity = Fin (ln (1 + exp (- 2)) + 2 * (- exp (- 2)) / (1 + exp (- 2))),
            s_P = [Fin (exp (- 2) / (1 + exp (- 2))), Fin (1 / (1 + exp (- 2)))],
            s_iter = Suc (s_iter ?s1)\<rparr>"
  have logT: "flog (Fin (19 / 20)) = Fin (ln (19 / 20))" by simp
  have run0: "searching (Fin (ln (19 / 20))) (Fin (1 / 100000)) ?s0"
    using neg_row_searching [of ?s0 0] by (simp add: search_init_def)
  have step0: "search_step [Fin (- 1), Fin 0] (Fin (ln (19 / 20))) ?s0 = Inr ?s1"
    by (rule neg_row_step_up) (simp_all add: search_init_def)
  have run1: "searching (Fin (ln (19 / 20))) (Fin (1 / 100000)) ?s1"
    using neg_row_searching [of ?s1 "ln (1 + exp (- 2)) + 2 * (- exp (- 2)) / (1 + exp (- 2))"] H2_upper
    by (simp add: search_init_def)
  have step1: "search_step [Fin (- 1), Fin 0] (Fin (ln (19 / 20))) ?s1 = Inr ?s2"
    by (rule neg_row_step_down) simp_all
  show ?thesis
    unfolding logT
    apply (rule exI [of _ ?s0], rule exI [of _ ?s1], rule exI [of _ ?s2])
    using neg_row_first run0 step0 run1 step1 by simp
qed

text \<open>
  Claim C7.  For a designated index that is absent (\<open>-1\<close>) or inside the row, and for
  all rows, targets and tolerances (special values included), \<open>binary_search_perplexity\<close>
  returns a pair and raises nothing; the loop body runs at most 50 times; when it ran
  fewer than 50 times the test \<open>|H - log T| > tolerance\<close> is false at the end; and at
  every state before the last one that test was true, so the loop stopped at the first
  state where it failed.
\<close>

theorem binary_search_perplexity_bounded:
  assumes "i = - 1 \<or> (0 \<le> i \<and> nat i < length Di)"
  shows "\<exists>s0 s. (\<exists>H P. perplexity_and_prob Di (Fin 1) i = Inr (H, P) \<and> s0 = search_init H P)
           \<and> binary_search_perplexity_locals Di T i tol = Inr s
           \<and> binary_search_perplexity Di T i tol = Inr (s_P s, s_beta s)
           \<and> s_iter s \<le> 50
           \<and> (s_iter s < 50 \<longrightarrow> \<not> fgt (fabs (fsub (s_log_perplexity s) (flog T))) tol)
           \<and> search_steps (s_iter s) Di (flog T) s0 = Inr s
           \<and> (\<forall>k < s_iter s. \<exists>sk. search_steps k Di (flog T) s0 = Inr sk
                  \<and> fgt (fabs (fsub (s_log_perplexity sk) (flog T))) tol)"
proof -
  obtain H P where first: "perplexity_and_prob Di (Fin 1) i = Inr (H, P)"
    using assms
    by (auto simp: perplexity_and_prob_def assign_def Let_def dist_exp_def dist_scale_def)
  define s0 where "s0 = search_init H P"
  have it0: "s_iter s0 = 0" by (simp add: s0_def search_init_def)
  from search_loop_trace [of Di "flog T" tol s0] it0 obtain s where s:
    "search_loop Di (flog T) tol s0 = Inr s"
    "s_iter s \<le> 50"
    "\<not> searching (flog T) tol s"
    "search_steps (s_iter s) Di (flog T) s0 = Inr s"
    "\<forall>k < s_iter s. \<exists>sk. search_steps k Di (flog T) s0 = Inr sk \<and> searching (flog T) tol sk"
    by auto
  have locals: "binary_search_perplexity_locals Di T i tol = Inr s"
    using first s(1) by (simp add: binary_search_perplexity_locals_def s0_def)
  then have res: "binary_search_perplexity Di T i tol = Inr (s_P s, s_beta s)"
    by (simp add: binary_search_perplexity_def)
  have stop: "s_iter s < 50 \<longrightarrow> \<not> fgt (fabs (fsub (s_log_perplexity s) (flog T))) tol"
    using s(3) by (simp add: searching_def)
  have visited: "\<forall>k < s_iter s. \<exists>sk. search_steps k Di (flog T) s0 = Inr sk
                  \<and> fgt (fabs (fsub (s_log_perplexity sk) (flog T))) tol"
    using s(5) by (auto simp: searching_def)
  show ?thesis
    using first s0_def locals res s(2) stop s(4) visited by blast
qed


theorem binary_search_perplexity_bounded_witness:
  "((0::int) = - 1 \<or> ((0::int) \<le> 0 \<and> nat 0 < length [Fin 0, Fin 0]))
   \<and> (\<exists>s0 s. (\<exists>H P. perplexity_and_prob [Fin 0, Fin 0] (Fin 1) 0 = Inr (H, P)
                  \<and> s0 = search_init H P)
           \<and> binary_search_perplexity_locals [Fin 0, Fin 0] (Fin 2) 0 (Fin (1 / 100000)) = Inr s
           \<and> binary_search_perplexity [Fin 0, Fin 0] (Fin 2) 0 (Fin (1 / 100000))
                 = Inr (s_P s, s_beta s)
           \<and> s_iter s \<le> 50
           \<and> (s_iter s < 50 \<longrightarrow>
                 \<not> fgt (fabs (fsub (s_log_perplexity s) (flog (Fin 2)))) (Fin (1 / 100000)))
           \<and> search_steps (s_iter s) [Fin 0, Fin 0] (flog (Fin 2)) s0 = Inr s
           \<and> (\<forall>k < s_iter s. \<exists>sk. search_steps k [Fin 0, Fin 0] (flog (Fin 2)) s0 = Inr sk
                  \<and> fgt (fabs (fsub (s_log_perplexity sk) (flog (Fin 2)))) (Fin (1 / 100000))))"
proof -
  have h: "(0::int) = - 1 \<or> ((0::int) \<le> 0 \<and> nat 0 < length [Fin 0, Fin 0])"
    by simp
  show ?thesis
    using h binary_search_perplexity_bounded [OF h, of "Fin 2" "Fin (1 / 100000)"]
    by blast
qed

section \<open>The validation in \<^verbatim>\<open>distances_to_probabilities\<close>\<close>

text \<open>
  Claim C4.  For a square matrix with \<open>n\<close> rows: every row that passes the length check
  has \<open>n\<close> entries, so the read at index \<open>n\<close> in the diagonal check is one past its
  last entry and the checked read gives \<open>None\<close>; the calibrated row of every row index
  \<open>i < n\<close> passes the length check, so every row iteration ends in this read.
\<close>

theorem diagonal_check_reads_past_end:
  assumes "wf_array D" "shape1 D = shape0 D" "i < shape0 D"
  shows "(\<forall>P_row. check_row (shape0 D) P_row \<noteq> Inl (Exception ''P_row has the wrong size'')
            \<longrightarrow> elem_at P_row (int (shape0 D)) = None
              \<and> check_row (shape0 D) P_row = Inl (OutOfRange (int (shape0 D)) (shape0 D)))
       \<and> (\<exists>P_row b.
             binary_search_perplexity (take (shape0 D) (elems D ! i)) perplexity (int i) tolerance
               = Inr (P_row, b)
           \<and> length P_row = shape0 D
           \<and> elem_at P_row (int (shape0 D)) = None)
       \<and> calibrate_row D (shape0 D) tolerance perplexity i
             = Inl (OutOfRange (int (shape0 D)) (shape0 D))"
proof -
  have a: "elem_at P_row (int (shape0 D)) = None
              \<and> check_row (shape0 D) P_row = Inl (OutOfRange (int (shape0 D)) (shape0 D))"
    if "check_row (shape0 D) P_row \<noteq> Inl (Exception ''P_row has the wrong size'')" for P_row
  proof -
    from that have "length P_row = shape0 D"
      by (auto simp: check_row_def split: if_splits)
    then show ?thesis by (simp add: check_row_past_end)
  qed
  obtain P_row b where r:
    "binary_search_perplexity (take (shape0 D) (elems D ! i)) perplexity (int i) tolerance
       = Inr (P_row, b)" "length P_row = shape0 D"
    using calibrate_row_square(1) [OF assms] by blast
  then have "elem_at P_row (int (shape0 D)) = None"
    by (simp add: check_row_past_end)
  with r a calibrate_row_square(2) [OF assms] show ?thesis by blast
qed

theorem diagonal_check_reads_past_end_witness:
  "wf_array (new_array 2 2) \<and> shape1 (new_array 2 2) = shape0 (new_array 2 2)
   \<and> 1 < shape0 (new_array 2 2)
   \<and> check_row 2 [Fin 0, Fin 1] \<noteq> Inl (Exception ''P_row has the wrong size'')
   \<and> elem_at [Fin 0, Fin 1] 2 = None
   \<and> check_row 2 [Fin 0, Fin 1] = Inl (OutOfRange 2 2)
   \<and> calibrate_row (new_array 2 2) 2 (Fin (1 / 100000)) (Fin 30) 1 = Inl (OutOfRange 2 2)"
proof -
  have h: "wf_array (new_array 2 2)" "shape1 (new_array 2 2) = shape0 (new_array 2 2)"
    "1 < shape0 (new_array 2 2)"
    by (simp_all add: new_array_2_2)
  have c: "check_row 2 [Fin 0, Fin 1] \<noteq> Inl (Exception ''P_row has the wrong size'')"
    by (simp add: check_row_def elem_at_def)
  from diagonal_check_reads_past_end [OF h, of "Fin 30" "Fin (1 / 100000)"]
  have "\<forall>P_row. check_row 2 P_row \<noteq> Inl (Exception ''P_row has the wrong size'')
            \<longrightarrow> elem_at P_row 2 = None \<and> check_row 2 P_row = Inl (OutOfRange 2 2)"
    and "calibrate_row (new_array 2 2) 2 (Fin (1 / 100000)) (Fin 30) 1 = Inl (OutOfRange 2 2)"
    by (simp_all add: new_array_2_2)
  with h c show ?thesis by blast
qed

text \<open>
  Claim C3.  The validation never looks at entry \<open>i\<close> of the calibrated row.  For the
  3 x 3 matrix of zeros, tolerance \<open>1e-5\<close> and perplexity 30, the calibrated row of
  row 0 is \<open>(1/3, 1/3, 1/3)\<close>: its self entry is not zero, and the validation does not
  raise the exception for a non-zero diagonal entry but reads index 3 of a row of three
  entries.  A row of three entries whose self entry is zero ends in the same read and is
  not copied.
\<close>

theorem validation_ignores_self_entry:
  "calibrate_row (new_array 3 3) 3 (Fin (1 / 100000)) (Fin 30) 0 = Inl (OutOfRange 3 3)
   \<and> binary_search_perplexity (take 3 (elems (new_array 3 3) ! 0)) (Fin 30) 0 (Fin (1 / 100000))
       = Inr ([Fin (1 / 3), Fin (1 / 3), Fin (1 / 3)], Fin (1 / 2 ^ 50))
   \<and> elem_at [Fin (1 / 3), Fin (1 / 3), Fin (1 / 3)] 0 = Some (Fin (1 / 3))
   \<and> check_row 3 [Fin (1 / 3), Fin (1 / 3), Fin (1 / 3)] = Inl (OutOfRange 3 3)
   \<and> elem_at [Fin 0, Fin (1 / 2), Fin (1 / 2)] 0 = Some (Fin 0)
   \<and> check_row 3 [Fin 0, Fin (1 / 2), Fin (1 / 2)] = Inl (OutOfRange 3 3)
   \<and> distances_to_probabilities (new_array 3 3) (Fin (1 / 100000)) (Fin 30)
       = Inl (OutOfRange 3 3)"
proof -
  have row: "take 3 (elems (new_array 3 3) ! 0) = [Fin 0, Fin 0, Fin 0]"
    by (simp add: new_array_def numeral_3_eq_3)
  have wf: "wf_array (new_array 3 3)" "shape1 (new_array 3 3) = shape0 (new_array 3 3)"
    and n: "shape0 (new_array 3 3) = 3"
    by (simp_all add: wf_array_def new_array_def)
  have d2p: "distances_to_probabilities (new_array 3 3) (Fin (1 / 100000)) (Fin 30)
       = Inl (OutOfRange 3 3)"
    using d2p_square [OF wf, of "Fin (1 / 100000)" "Fin 30"] by (simp add: n)
  have cal: "calibrate_row (new_array 3 3) 3 (Fin (1 / 100000)) (Fin 30) 0 = Inl (OutOfRange 3 3)"
    using calibrate_row_square(2) [OF wf, of 0 "Fin (1 / 100000)" "Fin 30"] by (simp add: n)
  show ?thesis
    using zero_row_search d2p cal
    by (simp add: row check_row_past_end) (simp add: elem_at_def)
qed

section \<open>Shape errors\<close>

text \<open>
  Claim C9.  For a square input \<open>distances_to_probabilities\<close> is not free of errors:
  the run passes the shape test and then depends on the read of \<open>P_row[n]\<close> in the
  validation of row 0, one past the end of the row.  For the 6 x 6 matrix of zeros,
  tolerance \<open>1e-5\<close> and perplexity 30 the run ends in that read and returns no matrix.
\<close>

theorem square_input_ends_in_invalid_read:
  "shape1 (new_array 6 6) = shape0 (new_array 6 6)
   \<and> distances_to_probabilities (new_array 6 6) (Fin (1 / 100000)) (Fin 30)
       = Inl (OutOfRange 6 6)"
proof -
  have wf: "wf_array (new_array 6 6)" "shape1 (new_array 6 6) = shape0 (new_array 6 6)"
    and n: "shape0 (new_array 6 6) = 6"
    by (simp_all add: wf_array_def new_array_def)
  show ?thesis
    using wf d2p_square [OF wf, of "Fin (1 / 100000)" "Fin 30"] by (simp add: n)
qed

section \<open>\<^verbatim>\<open>tsne\<close> on square input\<close>

text \<open>
  Claim C10.  For a square matrix with \<open>n\<close> rows \<open>tsne\<close> returns the \<open>n\<close> by
  \<open>num_dims\<close> matrix of zeros, and so returns the same matrix for every square matrix
  with \<open>n\<close> rows.
\<close>

theorem tsne_returns_zeros:
  assumes "wf_array probs" and "shape0 probs = shape1 probs"
  shows "tsne probs num_dims
           = Inr \<lparr>shape0 = shape0 probs, shape1 = num_dims,
                  elems = replicate (shape0 probs) (replicate num_dims (Fin 0))\<rparr>
       \<and> (\<forall>probs'. wf_array probs' \<and> shape0 probs' = shape1 probs'
              \<and> shape0 probs' = shape0 probs
            \<longrightarrow> tsne probs' num_dims = tsne probs num_dims)"
  using assms by (simp add: tsne_def new_array_def Let_def)

theorem tsne_returns_zeros_witness:
  "wf_array \<lparr>shape0 = 2, shape1 = 2, elems = [[Fin 0, Fin (1 / 2)], [Fin 1, Fin 0]]\<rparr>
   \<and> shape0 \<lparr>shape0 = 2, shape1 = 2, elems = [[Fin 0, Fin (1 / 2)], [Fin 1, Fin 0]]\<rparr>
       = shape1 \<lparr>shape0 = 2, shape1 = 2, elems = [[Fin 0, Fin (1 / 2)], [Fin 1, Fin 0]]\<rparr>
   \<and> tsne \<lparr>shape0 = 2, shape1 = 2, elems = [[Fin 0, Fin (1 / 2)], [Fin 1, Fin 0]]\<rparr> 2
       = Inr \<lparr>shape0 = 2, shape1 = 2, elems = [[Fin 0, Fin 0], [Fin 0, Fin 0]]\<rparr>
   \<and> tsne (new_array 2 2) 2
       = tsne \<lparr>shape0 = 2, shape1 = 2, elems = [[Fin 0, Fin (1 / 2)], [Fin 1, Fin 0]]\<rparr> 2"
proof -
  let ?A = "\<lparr>shape0 = 2, shape1 = 2, elems = [[Fin 0, Fin (1 / 2)], [Fin 1, Fin 0]]\<rparr>"
  have h: "wf_array ?A" "shape0 ?A = shape1 ?A"
    by (simp_all add: wf_array_def)
  have w: "wf_array (new_array 2 2)" "shape0 (new_array 2 2) = 2" "shape1 (new_array 2 2) = 2"
    by (simp_all add: wf_array_def new_array_def)
  have r: "replicate 2 (replicate 2 (Fin 0)) = [[Fin 0, Fin 0], [Fin 0, Fin 0]]"
    by (simp add: numeral_2_eq_2)
  from tsne_returns_zeros [OF h, of 2]
  have "tsne ?A 2 = Inr \<lparr>shape0 = 2, shape1 = 2, elems = [[Fin 0, Fin 0], [Fin 0, Fin 0]]\<rparr>"
    and "tsne (new_array 2 2) 2 = tsne ?A 2"
    using w by (simp_all add: r)
  with h show ?thesis by simp
qed

section \<open>The matrix of \<^verbatim>\<open>vectors_to_distances\<close>\<close>

text \<open>
  Claim C8, as stated, fails in float arithmetic.  For the two points 4097 and 4096 on a
  line the squared norm \<open>4097\<^sup>2 = 16785409\<close> is stored in a \<^verbatim>\<open>float\<close> as 16785408, and
  the entry \<open>(0, 1)\<close> is \<open>16785408 + 16777216 - 2 * 16781312 = 0\<close>, not the squared
  distance 1.  For the single point \<open>2\<^sup>6\<^sup>4\<close> the squared norm is infinite in a
  \<^verbatim>\<open>float\<close> and the diagonal entry is NaN, not 0.
\<close>

theorem vectors_to_distances_cancellation:
  "get_elem (vectors_to_distances_fl binary32 (vec_dotprod_dp_fl binary64)
       (multiply_transposed_fl binary32 binary64)
       \<lparr>shape0 = 2, shape1 = 1, elems = [[Fin 4097], [Fin 4096]]\<rparr>) 0 1 = Fin 0
   \<and> sq_dist [4097] [4096] = 1
   \<and> get_elem (vectors_to_distances_fl binary32 (vec_dotprod_dp_fl binary64)
       (multiply_transposed_fl binary32 binary64)
       \<lparr>shape0 = 1, shape1 = 1, elems = [[Fin (2 ^ 64)]]\<rparr>) 0 0 = NaN"
proof -
  let ?dp = "vec_dotprod_dp_fl binary64"
  let ?mt = "multiply_transposed_fl binary32 binary64"
  let ?X = "\<lparr>shape0 = 2, shape1 = 1, elems = [[Fin 4097], [Fin 4096]]\<rparr>"
  let ?Y = "\<lparr>shape0 = 1, shape1 = 1, elems = [[Fin (2 ^ 64)]]\<rparr>"
  have sumX: "sum_X_fl binary32 ?dp ?X = [Fin 16785408, Fin 16777216]"
    by (simp add: sum_X_fl_map vec_dotprod_dp_fl_def dotprod_fl_def upt_rec
        binary64_values binary32_values binary32_tie)
  have xxt: "get_elem (?mt ?X ?X) 0 1 = Fin 16781312"
    by (simp add: multiply_transposed_fl_def get_elem_def dotprod_fl_def
        binary64_values binary32_values)
  have "get_elem (vectors_to_distances_fl binary32 ?dp ?mt ?X) 0 1
      = dist_entry_fl binary32 (sum_X_fl binary32 ?dp ?X) (?mt ?X ?X) 0 1"
    using v2d_fl_entries(2) [of 0 ?X 1 binary32 ?dp ?mt] by simp
  also have "\<dots> = Fin 0"
    by (simp only: dist_entry_fl_def sumX xxt) (simp add: fsub_def binary32_values)
  finally have first: "get_elem (vectors_to_distances_fl binary32 ?dp ?mt ?X) 0 1 = Fin 0" .
  have sumY: "sum_X_fl binary32 ?dp ?Y = [PInf]"
    using binary64_values(5) binary32_huge
    by (simp add: sum_X_fl_map vec_dotprod_dp_fl_def dotprod_fl_def binary64_values)
  have yyt: "get_elem (?mt ?Y ?Y) 0 0 = PInf"
    using binary64_values(5) binary32_huge
    by (simp add: multiply_transposed_fl_def get_elem_def dotprod_fl_def binary64_values)
  have "get_elem (vectors_to_distances_fl binary32 ?dp ?mt ?Y) 0 0
      = dist_entry_fl binary32 (sum_X_fl binary32 ?dp ?Y) (?mt ?Y ?Y) 0 0"
    using v2d_fl_entries(2) [of 0 ?Y 0 binary32 ?dp ?mt] by simp
  also have "\<dots> = NaN"
    by (simp only: dist_entry_fl_def sumY yyt) (simp add: fsub_def inf_of_sign_def)
  finally have second: "get_elem (vectors_to_distances_fl binary32 ?dp ?mt ?Y) 0 0 = NaN" .
  have "sq_dist [4097] [4096] = 1"
    by (simp add: sq_dist_def)
  with first second show ?thesis by simp
qed

text \<open>
  Claim C8, amended.  Whatever the roundings and the two library functions,
  \<open>vectors_to_distances\<close> returns an \<open>n\<close> by \<open>n\<close> matrix that is symmetric, each value
  being written to \<open>(i, j)\<close> and \<open>(j, i)\<close> at once, and whose entry \<open>(i, j)\<close> for
  \<open>i \<le> j\<close> is the stored value of \<open>sum_X[i] + sum_X[j] - 2 * XXT[i][j]\<close>.  A diagonal
  entry is 0 when \<open>sum_X[i]\<close> and \<open>XXT[i][i]\<close> are the same finite number and twice
  that number is stored as a finite number; nothing else forces it to 0.  When no
  operation rounds and the library functions are the exact dot product and matrix
  product, the entry \<open>(i, j)\<close> is the squared Euclidean distance of the points \<open>i\<close>
  and \<open>j\<close>, which is the sum of their squared norms less twice their dot product, and
  the diagonal is 0.
\<close>

theorem vectors_to_distances_symmetric:
  assumes "wf_array X"
  shows "shape0 (vectors_to_distances_fl rf dp mt X) = shape0 X
       \<and> shape1 (vectors_to_distances_fl rf dp mt X) = shape0 X
       \<and> (\<forall>i < shape0 X. \<forall>j < shape0 X.
            get_elem (vectors_to_distances_fl rf dp mt X) i j
              = get_elem (vectors_to_distances_fl rf dp mt X) j i
          \<and> (i \<le> j \<longrightarrow> get_elem (vectors_to_distances_fl rf dp mt X) i j
                = dist_entry_fl rf (sum_X_fl rf dp X) (mt X X) i j))
       \<and> (\<forall>i < shape0 X. \<forall>s.
            rf 0 = Fin 0 \<and> sum_X_fl rf dp X ! i = Fin s \<and> get_elem (mt X X) i i = Fin s
            \<and> isfinite (rf (2 * s))
            \<longrightarrow> get_elem (vectors_to_distances_fl rf dp mt X) i i = Fin 0)
       \<and> (\<forall>xs. elems X = map (map Fin) xs \<longrightarrow>
            (\<forall>i < shape0 X. \<forall>j < shape0 X.
               get_elem (vectors_to_distances_fl Fin vec_dotprod_dp multiply_transposed X) i j
                 = Fin (sq_dist (xs ! i) (xs ! j))
             \<and> sq_dist (xs ! i) (xs ! j)
                 = dot (xs ! i) (xs ! i) + dot (xs ! j) (xs ! j) - 2 * dot (xs ! i) (xs ! j)
             \<and> get_elem (vectors_to_distances_fl Fin vec_dotprod_dp multiply_transposed X) i i
                 = Fin 0))"
proof -
  let ?D = "vectors_to_distances_fl rf dp mt X"
  have sq: "square_of (shape0 X) ?D"
    by (rule v2d_fl_entries(1))
  have ent: "get_elem ?D a b
        = dist_entry_fl rf (sum_X_fl rf dp X) (mt X X) (min a b) (max a b)"
    if "a < shape0 X" "b < shape0 X" for a b
    using that by (rule v2d_fl_entries(2))
  have sym: "get_elem ?D i j = get_elem ?D j i" if "i < shape0 X" "j < shape0 X" for i j
    using ent [OF that] ent [OF that(2) that(1)] by (simp add: min.commute max.commute)
  have upper: "get_elem ?D i j = dist_entry_fl rf (sum_X_fl rf dp X) (mt X X) i j"
    if "i < shape0 X" "j < shape0 X" "i \<le> j" for i j
    using ent [OF that(1,2)] that(3) by (simp add: min_def max_def)
  have diag: "get_elem ?D i i = Fin 0"
    if "i < shape0 X" "rf 0 = Fin 0" "sum_X_fl rf dp X ! i = Fin s"
      "get_elem (mt X X) i i = Fin s" "isfinite (rf (2 * s))" for i s
    using ent [OF that(1) that(1)] dist_entry_fl_diagonal [OF that(2-5)] by simp
  have exact: "get_elem (vectors_to_distances_fl Fin vec_dotprod_dp multiply_transposed X) i j
                 = Fin (sq_dist (xs ! i) (xs ! j))
             \<and> sq_dist (xs ! i) (xs ! j)
                 = dot (xs ! i) (xs ! i) + dot (xs ! j) (xs ! j) - 2 * dot (xs ! i) (xs ! j)
             \<and> get_elem (vectors_to_distances_fl Fin vec_dotprod_dp multiply_transposed X) i i
                 = Fin 0"
    if "elems X = map (map Fin) xs" "i < shape0 X" "j < shape0 X" for xs i j
  proof -
    have X: "X = \<lparr>shape0 = shape0 X, shape1 = shape1 X, elems = map (map Fin) xs\<rparr>"
      using that(1) by simp
    have "wf_array \<lparr>shape0 = shape0 X, shape1 = shape1 X, elems = map (map Fin) xs\<rparr>"
      using assms X by simp
    from v2d_exact_squared_distance [OF this] that(2,3) show ?thesis
      unfolding vectors_to_distances_fl_exact X [symmetric] by blast
  qed
  show ?thesis
    using sq sym upper diag exact unfolding square_of_def by blast
qed

theorem vectors_to_distances_symmetric_witness:
  "wf_array \<lparr>shape0 = 2, shape1 = 2, elems = map (map Fin) [[0, 0], [3, 4]]\<rparr>
   \<and> get_elem (vectors_to_distances_fl Fin vec_dotprod_dp multiply_transposed
        \<lparr>shape0 = 2, shape1 = 2, elems = map (map Fin) [[0, 0], [3, 4]]\<rparr>) 0 1 = Fin 25
   \<and> get_elem (vectors_to_distances_fl Fin vec_dotprod_dp multiply_transposed
        \<lparr>shape0 = 2, shape1 = 2, elems = map (map Fin) [[0, 0], [3, 4]]\<rparr>) 1 1 = Fin 0
   \<and> wf_array \<lparr>shape0 = 2, shape1 = 1, elems = [[Fin 4097], [Fin 4096]]\<rparr>
   \<and> get_elem (vectors_to_distances_fl binary32 (vec_dotprod_dp_fl binary64)
        (multiply_transposed_fl binary32 binary64)
        \<lparr>shape0 = 2, shape1 = 1, elems = [[Fin 4097], [Fin 4096]]\<rparr>) 1 0
     = get_elem (vectors_to_distances_fl binary32 (vec_dotprod_dp_fl binary64)
        (multiply_transposed_fl binary32 binary64)
        \<lparr>shape0 = 2, shape1 = 1, elems = [[Fin 4097], [Fin 4096]]\<rparr>) 0 1"
proof -
  let ?X = "\<lparr>shape0 = 2, shape1 = 2, elems = map (map Fin) [[0, 0], [3, 4]]\<rparr>"
  let ?Y = "\<lparr>shape0 = 2, shape1 = 1, elems = [[Fin 4097], [Fin 4096]]\<rparr>"
  have h: "wf_array ?X" and k: "wf_array ?Y"
    by (simp_all add: wf_array_def)
  have d: "sq_dist ([[0, 0], [3, 4]] ! 0) ([[0, 0], [3, 4]] ! 1) = 25"
    by (simp add: sq_dist_def)
  from vectors_to_distances_symmetric [OF h, of Fin vec_dotprod_dp multiply_transposed]
  have A: "\<forall>xs. elems ?X = map (map Fin) xs \<longrightarrow>
            (\<forall>i < shape0 ?X. \<forall>j < shape0 ?X.
               get_elem (vectors_to_distances_fl Fin vec_dotprod_dp multiply_transposed ?X) i j
                 = Fin (sq_dist (xs ! i) (xs ! j))
             \<and> get_elem (vectors_to_distances_fl Fin vec_dotprod_dp multiply_transposed ?X) i i
                 = Fin 0)"
    by blast
  have el: "elems ?X = map (map Fin) [[0, 0], [3, 4]]"
    by (simp only: multi_array.select_convs)
  have sh: "shape0 ?X = 2"
    by (simp only: multi_array.select_convs)
  have all: "\<forall>i < 2. \<forall>j < 2.
      get_elem (vectors_to_distances_fl Fin vec_dotprod_dp multiply_transposed ?X) i j
        = Fin (sq_dist ([[0, 0], [3, 4]] ! i) ([[0, 0], [3, 4]] ! j))
      \<and> get_elem (vectors_to_distances_fl Fin vec_dotprod_dp multiply_transposed ?X) i i = Fin 0"
    using A [THEN spec, of "[[0, 0], [3, 4]]", THEN mp, OF el] unfolding sh .
  have lt: "(0::nat) < 2" "(1::nat) < 2" by simp_all
  from all lt have e1: "get_elem (vectors_to_distances_fl Fin vec_dotprod_dp multiply_transposed ?X) 0 1
        = Fin (sq_dist ([[0, 0], [3, 4]] ! 0) ([[0, 0], [3, 4]] ! 1))"
    and e2: "get_elem (vectors_to_distances_fl Fin vec_dotprod_dp multiply_transposed ?X) 1 1 = Fin 0"
    by blast+
  from vectors_to_distances_symmetric
    [OF k, of binary32 "vec_dotprod_dp_fl binary64" "multiply_transposed_fl binary32 binary64"]
  have "\<forall>i < 2. \<forall>j < 2.
      get_elem (vectors_to_distances_fl binary32 (vec_dotprod_dp_fl binary64)
        (multiply_transposed_fl binary32 binary64) ?Y) i j
      = get_elem (vectors_to_distances_fl binary32 (vec_dotprod_dp_fl binary64)
        (multiply_transposed_fl binary32 binary64) ?Y) j i"
    by simp
  with lt have e3: "get_elem (vectors_to_distances_fl binary32 (vec_dotprod_dp_fl binary64)
        (multiply_transposed_fl binary32 binary64) ?Y) 1 0
      = get_elem (vectors_to_distances_fl binary32 (vec_dotprod_dp_fl binary64)
        (multiply_transposed_fl binary32 binary64) ?Y) 0 1"
    by blast
  show ?thesis
    using h k e1 e2 e3 d by simp
qed

end
